theory Spec2Isabelle
  imports Main "HOL-Library.Word" "HOL-Library.Sublist"
begin

unbundle bit_operations_syntax

section \<open>Machine types and byte-addressed memory\<close>

text \<open>
  The programs are C on an LP64 target: \<open>size_t\<close>, \<open>uintptr_t\<close>, \<open>long\<close> and pointers
  are 64 bits wide. Unsigned arithmetic wraps; a \<open>long\<close> is the same bit pattern read
  with \<open>sint\<close> and compared with \<open><s\<close>. Values of type \<open>ssize_t\<close> and \<open>int\<close> that the
  programs only compare with constants are kept as \<open>int\<close>; the kernel model below never
  produces one outside the range of its C type.
\<close>

type_synonym addr = "64 word"
type_synonym csize = "64 word"
type_synonym clong = "64 word"
type_synonym byte = "8 word"
type_synonym memory = "addr \<Rightarrow> byte"

definition NULL :: addr where
  "NULL = 0"

definition EXIT_SUCCESS :: int where
  "EXIT_SUCCESS = 0"

definition EXIT_FAILURE :: int where
  "EXIT_FAILURE = 1"

definition SSIZE_MAX :: nat where
  "SSIZE_MAX = 2 ^ 63 - 1"

text \<open>\<open>sizeof(void*)\<close>.\<close>

definition PTR_WIDTH :: "64 word" where
  "PTR_WIDTH = 8"

text \<open>Writing a byte sequence at an address, and reading \<open>n\<close> bytes from an address.
  Addresses wrap around at \<open>2 ^ 64\<close>.\<close>

definition store_bytes :: "memory \<Rightarrow> addr \<Rightarrow> byte list \<Rightarrow> memory" where
  "store_bytes m a bs = (\<lambda>x. if unat (x - a) < length bs then bs ! unat (x - a) else m x)"

definition load_bytes :: "memory \<Rightarrow> addr \<Rightarrow> nat \<Rightarrow> byte list" where
  "load_bytes m a n = map (\<lambda>i. m (a + of_nat i)) [0..<n]"

text \<open>A pointer object occupies \<open>sizeof(void*)\<close> consecutive bytes, least significant
  byte first.\<close>

fun ptr_bytes_n :: "nat \<Rightarrow> addr \<Rightarrow> byte list" where
  "ptr_bytes_n 0 p = []"
| "ptr_bytes_n (Suc k) p = ucast p # ptr_bytes_n k (drop_bit 8 p)"

definition ptr_bytes :: "addr \<Rightarrow> byte list" where
  "ptr_bytes p = ptr_bytes_n 8 p"

definition bytes_ptr :: "byte list \<Rightarrow> addr" where
  "bytes_ptr bs = foldr (\<lambda>b acc. ucast b OR push_bit 8 acc) bs 0"

text \<open>\<open>*((char** )a) = p\<close> and \<open>*((char** )a)\<close>.\<close>

definition store_ptr :: "memory \<Rightarrow> addr \<Rightarrow> addr \<Rightarrow> memory" where
  "store_ptr m a p = store_bytes m a (ptr_bytes p)"

definition load_ptr :: "memory \<Rightarrow> addr \<Rightarrow> addr" where
  "load_ptr m a = bytes_ptr (load_bytes m a 8)"


section \<open>The environment and the observable world\<close>

text \<open>
  What the operating system and the C library answer is an input of the model. One run
  uses one \<open>env\<close>. The \<open>script\<close> gives, for each iteration of the copy loop, the answer of
  \<open>read\<close> and the value \<open>write\<close> returns if the iteration gets to call it. A run that
  needs more answers than the script holds has no result in the model (\<open>None\<close>).
\<close>

datatype rd = RdErr | RdData "byte list"

record env =
  argc :: int
  sysconf_ret :: clong
  open_ret :: int
  fstat_ret :: "clong option"
  fadvise_ret :: int
  malloc_ret :: "csize \<Rightarrow> addr"
  stack_buf :: addr
  script :: "(rd \<times> int) list"
  close_ret :: int

text \<open>The call sites of \<open>perror\<close> and \<open>fprintf(stderr, ...)\<close>.\<close>

datatype diag =
    Usage
  | WarnPageSize
  | WarnFstat
  | WarnFadvise
  | InfoFadvise
  | InfoBufSize csize
  | ErrAlloc
  | ErrOpen
  | ErrWrite
  | ErrRead
  | ErrClose

datatype event =
    Sysconf clong
  | Open int
  | Fstat int "clong option"
  | Fadvise int int
  | Malloc csize addr
  | Free addr
  | Read int nat int "byte list"
  | Write "byte list" int
  | Close int int
  | Diag diag

record world =
  mem :: memory
  out :: "byte list"
  trace :: "event list"

definition start :: "memory \<Rightarrow> world" where
  "start m = \<lparr>mem = m, out = [], trace = []\<rparr>"

definition emit :: "event \<Rightarrow> world \<Rightarrow> world" where
  "emit ev w = w\<lparr>trace := trace w @ [ev]\<rparr>"

definition perror :: "diag \<Rightarrow> world \<Rightarrow> world" where
  "perror d w = emit (Diag d) w"

definition fprintf_stderr :: "diag \<Rightarrow> world \<Rightarrow> world" where
  "fprintf_stderr d w = emit (Diag d) w"

text \<open>
  \<open>read(fd, buf, n)\<close>: on an error the kernel returns \<open>-1\<close> and stores nothing; otherwise
  it stores at most \<open>n\<close> (and at most \<open>SSIZE_MAX\<close>) of the bytes it has for this call at
  \<open>buf\<close> and returns how many.
\<close>

definition sys_read :: "rd \<Rightarrow> int \<Rightarrow> addr \<Rightarrow> csize \<Rightarrow> world \<Rightarrow> int \<times> world" where
  "sys_read r fd buf n w =
     (case r of
        RdErr \<Rightarrow> (- 1, emit (Read fd (unat n) (- 1) []) w)
      | RdData bs \<Rightarrow>
          (let chunk = take (min (unat n) SSIZE_MAX) bs in
           (int (length chunk),
            emit (Read fd (unat n) (int (length chunk)) chunk)
              (w\<lparr>mem := store_bytes (mem w) buf chunk\<rparr>))))"

text \<open>
  \<open>write(STDOUT_FILENO, buf, n)\<close> returning \<open>wr\<close>: the first \<open>wr\<close> of the \<open>n\<close> bytes at
  \<open>buf\<close> have reached standard output; none when \<open>wr\<close> is negative (\<open>nat wr = 0\<close> then).
\<close>

definition sys_write :: "int \<Rightarrow> addr \<Rightarrow> nat \<Rightarrow> world \<Rightarrow> int \<times> world" where
  "sys_write wr buf n w =
     (let bs = load_bytes (mem w) buf n in
      (wr, emit (Write bs wr) (w\<lparr>out := out w @ take (nat wr) bs\<rparr>)))"

definition sys_close :: "env \<Rightarrow> int \<Rightarrow> world \<Rightarrow> int \<times> world" where
  "sys_close e fd w = (close_ret e, emit (Close fd (close_ret e)) w)"

definition sys_open :: "env \<Rightarrow> world \<Rightarrow> int \<times> world" where
  "sys_open e w = (open_ret e, emit (Open (open_ret e)) w)"

definition malloc :: "env \<Rightarrow> csize \<Rightarrow> world \<Rightarrow> addr \<times> world" where
  "malloc e n w = (malloc_ret e n, emit (Malloc n (malloc_ret e n)) w)"

definition free :: "addr \<Rightarrow> world \<Rightarrow> world" where
  "free p w = emit (Free p) w"


section \<open>Page size and block size\<close>

text \<open>\<open>get_system_page_size\<close> of mycat4.c, mycat5.c and mycat6.c.\<close>

definition get_system_page_size :: "env \<Rightarrow> world \<Rightarrow> clong \<times> world" where
  "get_system_page_size e w =
     (let page_size = sysconf_ret e; w1 = emit (Sysconf page_size) w in
      if page_size = - 1 then (4096, perror WarnPageSize w1)
      else (page_size, w1))"

text \<open>\<open>io_blocksize\<close> of mycat2.c: the page size, converted to \<open>size_t\<close>.\<close>

definition io_blocksize2 :: "env \<Rightarrow> world \<Rightarrow> csize \<times> world" where
  "io_blocksize2 e w =
     (let page_size = sysconf_ret e; w1 = emit (Sysconf page_size) w in
      if page_size = - 1 then (4096, perror WarnPageSize w1)
      else (page_size, w1))"

text \<open>\<open>io_blocksize\<close> of mycat4.c.\<close>

definition io_blocksize4 :: "env \<Rightarrow> int \<Rightarrow> world \<Rightarrow> csize \<times> world" where
  "io_blocksize4 e fd w =
     (case get_system_page_size e w of (page_size, w1) \<Rightarrow>
      case (case fstat_ret e of
              Some blksize \<Rightarrow> (blksize, emit (Fstat fd (Some blksize)) w1)
            | None \<Rightarrow> (0, perror WarnFstat (emit (Fstat fd None) w1)))
      of (fs_block_size, w2) \<Rightarrow>
        (let recommended_size = (if 0 <s fs_block_size then fs_block_size else page_size) in
         (if recommended_size < page_size then page_size else recommended_size, w2)))"

text \<open>\<open>io_blocksize\<close> of mycat5.c and mycat6.c: \<open>OPTIMAL_BUFFER_SIZE\<close>.\<close>

definition OPTIMAL_BUFFER_SIZE :: csize where
  "OPTIMAL_BUFFER_SIZE = 2 * 1024 * 1024"

definition io_blocksize5 :: csize where
  "io_blocksize5 = OPTIMAL_BUFFER_SIZE"


section \<open>The aligned allocator\<close>

text \<open>\<open>align_alloc\<close> and \<open>align_free\<close> (the same text in mycat4.c, mycat5.c and mycat6.c).\<close>

definition align_alloc :: "env \<Rightarrow> csize \<Rightarrow> world \<Rightarrow> addr \<times> world" where
  "align_alloc e size_arg w =
     (case get_system_page_size e w of (page_size, w1) \<Rightarrow>
      case malloc e (size_arg + page_size - 1 + PTR_WIDTH) w1 of (original_ptr, w2) \<Rightarrow>
        if original_ptr = NULL then (NULL, w2)
        else
          (let aligned_ptr = (original_ptr + PTR_WIDTH + page_size - 1) AND NOT (page_size - 1) in
           (aligned_ptr,
            w2\<lparr>mem := store_ptr (mem w2) (aligned_ptr - PTR_WIDTH) original_ptr\<rparr>)))"

definition align_free :: "addr \<Rightarrow> world \<Rightarrow> world" where
  "align_free ptr w =
     (if ptr = NULL then w
      else (let original_ptr = load_ptr (mem w) (ptr - PTR_WIDTH) in free original_ptr w))"


section \<open>The copy loop and the five programs\<close>

datatype loop_exit = WriteMismatch | ReadReturned int

text \<open>
  The \<open>while ((bytes_read = read(fd_in, buffer, buffer_size)) > 0)\<close> loop of mycat2.c,
  mycat4.c, mycat5.c and mycat6.c. It is left either because \<open>write\<close> returned something
  else than \<open>bytes_read\<close>, or because \<open>read\<close> returned a value that is not positive.
\<close>

fun copy_loop :: "int \<Rightarrow> addr \<Rightarrow> csize \<Rightarrow> (rd \<times> int) list \<Rightarrow> world \<Rightarrow> (loop_exit \<times> world) option" where
  "copy_loop fd_in buffer buffer_size [] w = None"
| "copy_loop fd_in buffer buffer_size ((r, wr) # rest) w =
     (case sys_read r fd_in buffer buffer_size w of (bytes_read, w1) \<Rightarrow>
        if 0 < bytes_read then
          (case sys_write wr buffer (nat bytes_read) w1 of (bytes_written, w2) \<Rightarrow>
             if bytes_written \<noteq> bytes_read then Some (WriteMismatch, w2)
             else copy_loop fd_in buffer buffer_size rest w2)
        else Some (ReadReturned bytes_read, w1))"

text \<open>The loop of mycat1.c, with its literal counts: \<open>read(fd_in, buffer, 1)\<close> and
  \<open>write(STDOUT_FILENO, buffer, 1) != 1\<close>.\<close>

fun copy_loop1 :: "int \<Rightarrow> addr \<Rightarrow> (rd \<times> int) list \<Rightarrow> world \<Rightarrow> (loop_exit \<times> world) option" where
  "copy_loop1 fd_in buffer [] w = None"
| "copy_loop1 fd_in buffer ((r, wr) # rest) w =
     (case sys_read r fd_in buffer 1 w of (bytes_read, w1) \<Rightarrow>
        if 0 < bytes_read then
          (case sys_write wr buffer 1 w1 of (bytes_written, w2) \<Rightarrow>
             if bytes_written \<noteq> 1 then Some (WriteMismatch, w2)
             else copy_loop1 fd_in buffer rest w2)
        else Some (ReadReturned bytes_read, w1))"

text \<open>
  What every \<open>main\<close> does once the loop is left: the body of the write-failure branch,
  then steps ``check why the loop ended'', ``close'' and ``free''. The five programs
  differ only in how the buffer is released (\<open>release\<close>): not at all in mycat1.c,
  \<open>free(buffer)\<close> in mycat2.c, \<open>align_free(buffer)\<close> in the others.
\<close>

definition finish :: "env \<Rightarrow> int \<Rightarrow> (world \<Rightarrow> world) \<Rightarrow> (loop_exit \<times> world) option \<Rightarrow> (int \<times> world) option" where
  "finish e fd_in release r =
     (case r of
        None \<Rightarrow> None
      | Some (WriteMismatch, w) \<Rightarrow>
          Some (EXIT_FAILURE, release (snd (sys_close e fd_in (perror ErrWrite w))))
      | Some (ReadReturned bytes_read, w) \<Rightarrow>
          if bytes_read = - 1 then
            Some (EXIT_FAILURE, release (snd (sys_close e fd_in (perror ErrRead w))))
          else
            (case sys_close e fd_in w of (c, w1) \<Rightarrow>
               if c = - 1 then Some (EXIT_FAILURE, release (perror ErrClose w1))
               else Some (EXIT_SUCCESS, release w1)))"

definition main1 :: "env \<Rightarrow> world \<Rightarrow> (int \<times> world) option" where
  "main1 e w =
     (if argc e \<noteq> 2 then Some (EXIT_FAILURE, fprintf_stderr Usage w)
      else
        case sys_open e w of (fd_in, w1) \<Rightarrow>
          if fd_in = - 1 then Some (EXIT_FAILURE, perror ErrOpen w1)
          else finish e fd_in (\<lambda>w. w) (copy_loop1 fd_in (stack_buf e) (script e) w1))"

definition main2 :: "env \<Rightarrow> world \<Rightarrow> (int \<times> world) option" where
  "main2 e w =
     (if argc e \<noteq> 2 then Some (EXIT_FAILURE, fprintf_stderr Usage w)
      else
        case io_blocksize2 e w of (buffer_size, w1) \<Rightarrow>
        case malloc e buffer_size (fprintf_stderr (InfoBufSize buffer_size) w1) of (buffer, w2) \<Rightarrow>
          if buffer = NULL then Some (EXIT_FAILURE, perror ErrAlloc w2)
          else
            case sys_open e w2 of (fd_in, w3) \<Rightarrow>
              if fd_in = - 1 then Some (EXIT_FAILURE, free buffer (perror ErrOpen w3))
              else finish e fd_in (free buffer) (copy_loop fd_in buffer buffer_size (script e) w3))"

text \<open>Steps ``allocate the aligned buffer'' to the end of mycat4.c, mycat5.c and
  mycat6.c, which are the same text.\<close>

definition copy_aligned :: "env \<Rightarrow> int \<Rightarrow> csize \<Rightarrow> world \<Rightarrow> (int \<times> world) option" where
  "copy_aligned e fd_in buffer_size w =
     (case align_alloc e buffer_size w of (buffer, w1) \<Rightarrow>
        if buffer = NULL then
          Some (EXIT_FAILURE, snd (sys_close e fd_in (perror ErrAlloc w1)))
        else finish e fd_in (align_free buffer) (copy_loop fd_in buffer buffer_size (script e) w1))"

definition main4 :: "env \<Rightarrow> world \<Rightarrow> (int \<times> world) option" where
  "main4 e w =
     (if argc e \<noteq> 2 then Some (EXIT_FAILURE, fprintf_stderr Usage w)
      else
        case sys_open e w of (fd_in, w1) \<Rightarrow>
          if fd_in = - 1 then Some (EXIT_FAILURE, perror ErrOpen w1)
          else
            case io_blocksize4 e fd_in w1 of (buffer_size, w2) \<Rightarrow>
              copy_aligned e fd_in buffer_size (fprintf_stderr (InfoBufSize buffer_size) w2))"

definition main5 :: "env \<Rightarrow> world \<Rightarrow> (int \<times> world) option" where
  "main5 e w =
     (if argc e \<noteq> 2 then Some (EXIT_FAILURE, fprintf_stderr Usage w)
      else
        case sys_open e w of (fd_in, w1) \<Rightarrow>
          if fd_in = - 1 then Some (EXIT_FAILURE, perror ErrOpen w1)
          else
            (let buffer_size = io_blocksize5 in
             copy_aligned e fd_in buffer_size (fprintf_stderr (InfoBufSize buffer_size) w1)))"

text \<open>mycat6.c: \<open>posix_fadvise(fd_in, 0, 0, POSIX_FADV_SEQUENTIAL)\<close> after the open.\<close>

definition hint_sequential :: "env \<Rightarrow> int \<Rightarrow> world \<Rightarrow> world" where
  "hint_sequential e fd_in w =
     (let r = fadvise_ret e; w1 = emit (Fadvise fd_in r) w in
      if r = - 1 then perror WarnFadvise w1 else fprintf_stderr InfoFadvise w1)"

definition main6 :: "env \<Rightarrow> world \<Rightarrow> (int \<times> world) option" where
  "main6 e w =
     (if argc e \<noteq> 2 then Some (EXIT_FAILURE, fprintf_stderr Usage w)
      else
        case sys_open e w of (fd_in, w1) \<Rightarrow>
          if fd_in = - 1 then Some (EXIT_FAILURE, perror ErrOpen w1)
          else
            (let w2 = hint_sequential e fd_in w1; buffer_size = io_blocksize5 in
             copy_aligned e fd_in buffer_size (fprintf_stderr (InfoBufSize buffer_size) w2)))"

datatype variant = Mycat1 | Mycat2 | Mycat4 | Mycat5 | Mycat6

fun run :: "variant \<Rightarrow> env \<Rightarrow> memory \<Rightarrow> (int \<times> world) option" where
  "run Mycat1 e m = main1 e (start m)"
| "run Mycat2 e m = main2 e (start m)"
| "run Mycat4 e m = main4 e (start m)"
| "run Mycat5 e m = main5 e (start m)"
| "run Mycat6 e m = main6 e (start m)"


section \<open>Observations on a run\<close>

text \<open>What a trace says about allocation, release and input/output.\<close>

fun mallocs_of :: "event \<Rightarrow> (csize \<times> addr) list" where
  "mallocs_of (Malloc n p) = [(n, p)]"
| "mallocs_of _ = []"

fun frees_of :: "event \<Rightarrow> addr list" where
  "frees_of (Free p) = [p]"
| "frees_of _ = []"

fun opens_of :: "event \<Rightarrow> int list" where
  "opens_of (Open fd) = [fd]"
| "opens_of _ = []"

fun closes_of :: "event \<Rightarrow> int list" where
  "closes_of (Close fd c) = [fd]"
| "closes_of _ = []"

fun diags_of :: "event \<Rightarrow> diag list" where
  "diags_of (Diag d) = [d]"
| "diags_of _ = []"

fun reads_of :: "event \<Rightarrow> int list" where
  "reads_of (Read fd n r c) = [r]"
| "reads_of _ = []"

fun writes_of :: "event \<Rightarrow> (byte list \<times> int) list" where
  "writes_of (Write bs r) = [(bs, r)]"
| "writes_of _ = []"

text \<open>The bytes of a chunk that a read delivered (a read that returned a positive count).\<close>

fun chunk_of :: "event \<Rightarrow> byte list" where
  "chunk_of (Read fd n r c) = (if 0 < r then c else [])"
| "chunk_of _ = []"

definition mallocs :: "event list \<Rightarrow> (csize \<times> addr) list" where
  "mallocs t = concat (map mallocs_of t)"

definition frees :: "event list \<Rightarrow> addr list" where
  "frees t = concat (map frees_of t)"

definition opens :: "event list \<Rightarrow> int list" where
  "opens t = concat (map opens_of t)"

definition closes :: "event list \<Rightarrow> int list" where
  "closes t = concat (map closes_of t)"

definition diags :: "event list \<Rightarrow> diag list" where
  "diags t = concat (map diags_of t)"

definition reads :: "event list \<Rightarrow> int list" where
  "reads t = concat (map reads_of t)"

definition writes :: "event list \<Rightarrow> (byte list \<times> int) list" where
  "writes t = concat (map writes_of t)"

definition chunks_read :: "event list \<Rightarrow> byte list" where
  "chunks_read t = concat (map chunk_of t)"

text \<open>No \<open>write\<close> follows a \<open>read\<close> that returned zero or a negative value.\<close>

fun no_write_after_end :: "event list \<Rightarrow> bool" where
  "no_write_after_end [] = True"
| "no_write_after_end (Read fd n r c # t) =
     (if r \<le> 0 then writes t = [] else no_write_after_end t)"
| "no_write_after_end (ev # t) = no_write_after_end t"

text \<open>
  The reads of a trace are those of a regular file with contents \<open>F\<close>, read from its
  start: a positive return value \<open>r\<close> comes with the next \<open>r\<close> bytes of the file, and
  zero is returned only at the end of the file or for a request of zero bytes. Nothing
  is said about a read that failed.
\<close>

fun file_reads :: "byte list \<Rightarrow> event list \<Rightarrow> bool" where
  "file_reads F [] = True"
| "file_reads F (Read fd n r c # t) =
     (if 0 < r then nat r \<le> length F \<and> c = take (nat r) F \<and> file_reads (drop (nat r) F) t
      else if r = 0 then (F = [] \<or> n = 0) \<and> file_reads F t
      else file_reads F t)"
| "file_reads F (ev # t) = file_reads F t"

text \<open>
  The answers of \<open>read\<close> in a script are those of a finite stream of \<open>remaining\<close>
  bytes: an answer never holds more bytes than remain, and the bytes it holds are
  consumed. So an exhausted stream answers with no bytes, and an answer with bytes
  shortens what remains.
\<close>

fun stream_reads :: "nat \<Rightarrow> (rd \<times> int) list \<Rightarrow> bool" where
  "stream_reads remaining [] = True"
| "stream_reads remaining ((RdErr, wr) # s) = stream_reads remaining s"
| "stream_reads remaining ((RdData bs, wr) # s) =
     (length bs \<le> remaining \<and> stream_reads (remaining - length bs) s)"

text \<open>The page-size query answered as documented: \<open>-1\<close> or a positive number.\<close>

definition sysconf_ok :: "env \<Rightarrow> bool" where
  "sysconf_ok e = (sysconf_ret e = - 1 \<or> 0 <s sysconf_ret e)"



section \<open>The common shape of the five programs\<close>

text \<open>
  Each \<open>main\<close> is a preamble that either exits early or arrives at the loop with an
  open descriptor, a buffer, its size and a way to release it, followed by the loop and
  by \<open>finish\<close>. The preamble of all five programs as one function; lemma
  \<open>run_prelude\<close> below shows that this view agrees with the programs.
\<close>

datatype prepared = Early int world | Ready int addr csize "world \<Rightarrow> world" world

definition prelude_aligned :: "env \<Rightarrow> int \<Rightarrow> csize \<Rightarrow> world \<Rightarrow> prepared" where
  "prelude_aligned e fd_in buffer_size w =
     (case align_alloc e buffer_size w of (buffer, w1) \<Rightarrow>
        if buffer = NULL then Early EXIT_FAILURE (snd (sys_close e fd_in (perror ErrAlloc w1)))
        else Ready fd_in buffer buffer_size (align_free buffer) w1)"

fun prelude :: "variant \<Rightarrow> env \<Rightarrow> world \<Rightarrow> prepared" where
  "prelude Mycat1 e w =
     (if argc e \<noteq> 2 then Early EXIT_FAILURE (fprintf_stderr Usage w)
      else
        case sys_open e w of (fd_in, w1) \<Rightarrow>
          if fd_in = - 1 then Early EXIT_FAILURE (perror ErrOpen w1)
          else Ready fd_in (stack_buf e) 1 (\<lambda>w. w) w1)"
| "prelude Mycat2 e w =
     (if argc e \<noteq> 2 then Early EXIT_FAILURE (fprintf_stderr Usage w)
      else
        case io_blocksize2 e w of (buffer_size, w1) \<Rightarrow>
        case malloc e buffer_size (fprintf_stderr (InfoBufSize buffer_size) w1) of (buffer, w2) \<Rightarrow>
          if buffer = NULL then Early EXIT_FAILURE (perror ErrAlloc w2)
          else
            case sys_open e w2 of (fd_in, w3) \<Rightarrow>
              if fd_in = - 1 then Early EXIT_FAILURE (free buffer (perror ErrOpen w3))
              else Ready fd_in buffer buffer_size (free buffer) w3)"
| "prelude Mycat4 e w =
     (if argc e \<noteq> 2 then Early EXIT_FAILURE (fprintf_stderr Usage w)
      else
        case sys_open e w of (fd_in, w1) \<Rightarrow>
          if fd_in = - 1 then Early EXIT_FAILURE (perror ErrOpen w1)
          else
            case io_blocksize4 e fd_in w1 of (buffer_size, w2) \<Rightarrow>
              prelude_aligned e fd_in buffer_size (fprintf_stderr (InfoBufSize buffer_size) w2))"
| "prelude Mycat5 e w =
     (if argc e \<noteq> 2 then Early EXIT_FAILURE (fprintf_stderr Usage w)
      else
        case sys_open e w of (fd_in, w1) \<Rightarrow>
          if fd_in = - 1 then Early EXIT_FAILURE (perror ErrOpen w1)
          else
            prelude_aligned e fd_in io_blocksize5 (fprintf_stderr (InfoBufSize io_blocksize5) w1))"
| "prelude Mycat6 e w =
     (if argc e \<noteq> 2 then Early EXIT_FAILURE (fprintf_stderr Usage w)
      else
        case sys_open e w of (fd_in, w1) \<Rightarrow>
          if fd_in = - 1 then Early EXIT_FAILURE (perror ErrOpen w1)
          else
            prelude_aligned e fd_in io_blocksize5
              (fprintf_stderr (InfoBufSize io_blocksize5) (hint_sequential e fd_in w1)))"

definition after_prelude :: "env \<Rightarrow> prepared \<Rightarrow> (int \<times> world) option" where
  "after_prelude e s =
     (case s of
        Early code w \<Rightarrow> Some (code, w)
      | Ready fd_in buffer buffer_size release w \<Rightarrow>
          finish e fd_in release (copy_loop fd_in buffer buffer_size (script e) w))"

text \<open>
  The events of one execution of the loop, its exit and the bytes it adds to standard
  output: iterations whose write returns the count read, ended by a read that returns
  \<open>0\<close> or \<open>-1\<close> or by a write that returns another count than the one read.
\<close>

inductive loop_run :: "int \<Rightarrow> nat \<Rightarrow> loop_exit \<Rightarrow> event list \<Rightarrow> byte list \<Rightarrow> bool" where
  stop: "r = 0 \<or> r = - 1 \<Longrightarrow> loop_run fd n (ReadReturned r) [Read fd n r []] []"
| mismatch: "c \<noteq> [] \<Longrightarrow> wr \<noteq> int (length c) \<Longrightarrow>
     loop_run fd n WriteMismatch [Read fd n (int (length c)) c, Write c wr] (take (nat wr) c)"
| iterate: "c \<noteq> [] \<Longrightarrow> loop_run fd n ex evs d \<Longrightarrow>
     loop_run fd n ex (Read fd n (int (length c)) c # Write c (int (length c)) # evs) (c @ d)"

text \<open>A trace without input/output, without a close or a release, and without an
  error report: what every preamble that reaches the loop leaves behind.\<close>

definition quiet :: "event list \<Rightarrow> bool" where
  "quiet t = (reads t = [] \<and> writes t = [] \<and> closes t = [] \<and> frees t = [] \<and> chunks_read t = []
     \<and> set (diags t) \<inter> {Usage, ErrAlloc, ErrOpen, ErrWrite, ErrRead, ErrClose} = {})"

text \<open>What \<open>finish\<close> adds to the trace before the buffer is released, and the exit
  status it chooses.\<close>

definition finish_events :: "env \<Rightarrow> int \<Rightarrow> loop_exit \<Rightarrow> event list" where
  "finish_events e fd_in ex =
     (case ex of
        WriteMismatch \<Rightarrow> [Diag ErrWrite, Close fd_in (close_ret e)]
      | ReadReturned r \<Rightarrow>
          if r = - 1 then [Diag ErrRead, Close fd_in (close_ret e)]
          else if close_ret e = - 1 then [Close fd_in (close_ret e), Diag ErrClose]
          else [Close fd_in (close_ret e)])"

definition finish_code :: "env \<Rightarrow> loop_exit \<Rightarrow> int" where
  "finish_code e ex =
     (case ex of
        WriteMismatch \<Rightarrow> EXIT_FAILURE
      | ReadReturned r \<Rightarrow>
          if r = - 1 then EXIT_FAILURE
          else if close_ret e = - 1 then EXIT_FAILURE
          else EXIT_SUCCESS)"


section \<open>Sample environments\<close>

text \<open>A two-byte file read in one piece; every call succeeds.\<close>

definition env_ok :: env where
  "env_ok = \<lparr>argc = 2, sysconf_ret = 4096, open_ret = 3, fstat_ret = Some 65536,
     fadvise_ret = 0, malloc_ret = (\<lambda>n. 65536), stack_buf = 32768,
     script = [(RdData [104, 105], 2), (RdData [], 0)], close_ret = 0\<rparr>"

text \<open>The same file, but \<open>write\<close> fails.\<close>

definition env_wfail :: env where
  "env_wfail = env_ok\<lparr>script := [(RdData [104, 105], - 1)]\<rparr>"

text \<open>The same file, but \<open>write\<close> returns a count larger than the two bytes it was
  given.\<close>

definition env_over :: env where
  "env_over = env_ok\<lparr>script := [(RdData [104, 105], 3)]\<rparr>"

text \<open>The input path cannot be opened.\<close>

definition env_noent :: env where
  "env_noent = env_ok\<lparr>open_ret := - 1\<rparr>"

text \<open>The input is a FIFO: \<open>posix_fadvise\<close> fails and returns the error number
  \<open>ESPIPE\<close> (29).\<close>

definition env_fifo :: env where
  "env_fifo = env_ok\<lparr>fadvise_ret := 29\<rparr>"

text \<open>Neither the page size nor the block size of the file can be queried.\<close>

definition env_noadvice :: env where
  "env_noadvice = env_ok\<lparr>sysconf_ret := - 1, fstat_ret := None\<rparr>"

text \<open>A three-byte file delivered byte by byte.\<close>

definition env_bytewise :: env where
  "env_bytewise = env_ok\<lparr>script := [(RdData [97], 1), (RdData [98], 1), (RdData [99], 1), (RdData [], 0)]\<rparr>"

definition mem0 :: memory where
  "mem0 = (\<lambda>x. 0)"


section \<open>Bytes and pointers in memory\<close>

lemma byte_step:
  "ucast (ucast (p::addr) :: byte) OR push_bit 8 (take_bit n (drop_bit 8 p)) = take_bit (8 + n) p"
proof (rule bit_word_eqI)
  fix k :: nat
  assume k: "k < LENGTH(64)"
  show "bit (ucast (ucast p :: byte) OR push_bit 8 (take_bit n (drop_bit 8 p))) k
      = bit (take_bit (8 + n) p) k"
  proof (cases "k < 8")
    case True
    then show ?thesis by (simp add: bit_simps)
  next
    case False
    then have "8 + (k - 8) = k" by simp
    with False k show ?thesis by (auto simp add: bit_simps)
  qed
qed

lemma bytes_ptr_n: "bytes_ptr (ptr_bytes_n k p) = take_bit (8 * k) p"
proof (induction k arbitrary: p)
  case 0
  show ?case by (simp add: bytes_ptr_def)
next
  case (Suc k)
  have "bytes_ptr (ptr_bytes_n (Suc k) p)
      = ucast (ucast p :: byte) OR push_bit 8 (bytes_ptr (ptr_bytes_n k (drop_bit 8 p)))"
    by (simp add: bytes_ptr_def)
  also have "\<dots> = take_bit (8 + 8 * k) p"
    by (simp only: Suc.IH byte_step)
  finally show ?case by simp
qed

lemma bytes_ptr_ptr_bytes: "bytes_ptr (ptr_bytes p) = p"
proof -
  have "bytes_ptr (ptr_bytes p) = take_bit 64 p"
    by (simp add: ptr_bytes_def bytes_ptr_n)
  also have "\<dots> = p"
    by (rule take_bit_word_eq_self) simp
  finally show ?thesis .
qed

lemma length_ptr_bytes_n: "length (ptr_bytes_n k p) = k"
  by (induction k arbitrary: p) auto

lemma length_ptr_bytes: "length (ptr_bytes p) = 8"
  by (simp add: ptr_bytes_def length_ptr_bytes_n)

lemma unat_offset: "i < 2 ^ 64 \<Longrightarrow> unat ((a::addr) + of_nat i - a) = i"
  by (simp add: unat_of_nat)

lemma load_store_same:
  assumes "length bs \<le> 2 ^ 64"
  shows "load_bytes (store_bytes m a bs) a (length bs) = bs"
proof (rule nth_equalityI)
  show "length (load_bytes (store_bytes m a bs) a (length bs)) = length bs"
    by (simp add: load_bytes_def)
next
  fix i
  assume "i < length (load_bytes (store_bytes m a bs) a (length bs))"
  then have i: "i < length bs" by (simp add: load_bytes_def)
  with assms have "i < 2 ^ 64" by simp
  then have "unat (a + of_nat i - a) = i" by (rule unat_offset)
  with i show "load_bytes (store_bytes m a bs) a (length bs) ! i = bs ! i"
    by (simp add: load_bytes_def store_bytes_def)
qed

lemma load_store_ptr: "load_ptr (store_ptr m a p) a = p"
proof -
  have "load_bytes (store_bytes m a (ptr_bytes p)) a (length (ptr_bytes p)) = ptr_bytes p"
    by (rule load_store_same) (simp add: length_ptr_bytes)
  then show ?thesis
    by (simp add: load_ptr_def store_ptr_def length_ptr_bytes bytes_ptr_ptr_bytes)
qed


section \<open>Rounding an address up to a page boundary\<close>





lemma unat_pow2_64:
  assumes "k < 64"
  shows "unat (2 ^ k :: 64 word) = 2 ^ k"
proof -
  have "(2 ^ k :: 64 word) = of_nat (2 ^ k)"
    by simp
  then have "unat (2 ^ k :: 64 word) = 2 ^ k mod 2 ^ 64"
    by (simp only: unat_of_nat) simp
  moreover have "(2::nat) ^ k < 2 ^ 64"
    by (rule power_strict_increasing) (use assms in simp_all)
  ultimately show ?thesis by simp
qed




section \<open>The loop, one iteration at a time\<close>

lemma mallocs_simps [simp]:
  "mallocs [] = []" "mallocs (ev # t) = mallocs_of ev @ mallocs t"
  "mallocs (t @ u) = mallocs t @ mallocs u"
  by (simp_all add: mallocs_def)

lemma frees_simps [simp]:
  "frees [] = []" "frees (ev # t) = frees_of ev @ frees t"
  "frees (t @ u) = frees t @ frees u"
  by (simp_all add: frees_def)

lemma opens_simps [simp]:
  "opens [] = []" "opens (ev # t) = opens_of ev @ opens t"
  "opens (t @ u) = opens t @ opens u"
  by (simp_all add: opens_def)

lemma closes_simps [simp]:
  "closes [] = []" "closes (ev # t) = closes_of ev @ closes t"
  "closes (t @ u) = closes t @ closes u"
  by (simp_all add: closes_def)

lemma diags_simps [simp]:
  "diags [] = []" "diags (ev # t) = diags_of ev @ diags t"
  "diags (t @ u) = diags t @ diags u"
  by (simp_all add: diags_def)

lemma reads_simps [simp]:
  "reads [] = []" "reads (ev # t) = reads_of ev @ reads t"
  "reads (t @ u) = reads t @ reads u"
  by (simp_all add: reads_def)

lemma writes_simps [simp]:
  "writes [] = []" "writes (ev # t) = writes_of ev @ writes t"
  "writes (t @ u) = writes t @ writes u"
  by (simp_all add: writes_def)

lemma chunks_read_simps [simp]:
  "chunks_read [] = []" "chunks_read (ev # t) = chunk_of ev @ chunks_read t"
  "chunks_read (t @ u) = chunks_read t @ chunks_read u"
  by (simp_all add: chunks_read_def)

lemma store_bytes_Nil [simp]: "store_bytes m a [] = m"
  by (simp add: store_bytes_def)

lemma store_bytes_frame: "length bs \<le> unat (x - a) \<Longrightarrow> store_bytes m a bs x = m x"
  by (simp add: store_bytes_def)

lemma chunk_le: "length (take (min n SSIZE_MAX) bs) \<le> SSIZE_MAX"
  by simp

lemma SSIZE_MAX_le: "SSIZE_MAX \<le> 2 ^ 64"
  by (simp add: SSIZE_MAX_def)

text \<open>One iteration, with the memory traffic resolved.\<close>

lemma copy_loop_RdErr:
  "copy_loop fd buf n ((RdErr, wr) # rest) w =
     Some (ReadReturned (- 1), w\<lparr>trace := trace w @ [Read fd (unat n) (- 1) []]\<rparr>)"
  by (simp add: sys_read_def emit_def)

lemma copy_loop_RdData:
  "copy_loop fd buf n ((RdData bs, wr) # rest) w =
     (let c = take (min (unat n) SSIZE_MAX) bs in
      if c = [] then Some (ReadReturned 0, w\<lparr>trace := trace w @ [Read fd (unat n) 0 []]\<rparr>)
      else if wr \<noteq> int (length c) then
        Some (WriteMismatch,
              w\<lparr>mem := store_bytes (mem w) buf c, out := out w @ take (nat wr) c,
                trace := trace w @ [Read fd (unat n) (int (length c)) c, Write c wr]\<rparr>)
      else copy_loop fd buf n rest
              (w\<lparr>mem := store_bytes (mem w) buf c, out := out w @ c,
                trace := trace w @ [Read fd (unat n) (int (length c)) c, Write c wr]\<rparr>))"
proof -
  define c where "c = take (min (unat n) SSIZE_MAX) bs"
  have "length c \<le> 2 ^ 64"
    using chunk_le [of "unat n" bs] SSIZE_MAX_le unfolding c_def by linarith
  then have ld: "load_bytes (store_bytes (mem w) buf c) buf (length c) = c"
    by (rule load_store_same)
  show ?thesis
  proof (cases "c = []")
    case True
    then show ?thesis
      unfolding Let_def c_def [symmetric]
      by (simp add: sys_read_def emit_def c_def [symmetric])
  next
    case False
    then show ?thesis
      unfolding Let_def c_def [symmetric]
      by (simp add: sys_read_def sys_write_def emit_def c_def [symmetric] ld)
  qed
qed

lemma copy_loop_run:
  "copy_loop fd buf n s w = Some (ex, w') \<Longrightarrow>
     \<exists>evs d. loop_run fd (unat n) ex evs d \<and> trace w' = trace w @ evs \<and> out w' = out w @ d
        \<and> (\<forall>x. SSIZE_MAX \<le> unat (x - buf) \<longrightarrow> mem w' x = mem w x)"
proof (induction s arbitrary: w)
  case Nil
  then show ?case by simp
next
  case (Cons a s)
  obtain r wr where a: "a = (r, wr)" by (cases a)
  show ?case
  proof (cases r)
    case RdErr
    with Cons.prems a have "ex = ReadReturned (- 1)"
      and "w' = w\<lparr>trace := trace w @ [Read fd (unat n) (- 1) []]\<rparr>"
      by (simp_all only: copy_loop_RdErr option.inject prod.inject)
    moreover have "loop_run fd (unat n) (ReadReturned (- 1)) [Read fd (unat n) (- 1) []] []"
      by (rule loop_run.stop) simp
    ultimately show ?thesis by auto
  next
    case (RdData bs)
    define c where "c = take (min (unat n) SSIZE_MAX) bs"
    have len: "length c \<le> SSIZE_MAX"
      unfolding c_def by (rule chunk_le)
    note step = copy_loop_RdData [of fd buf n bs wr s w, unfolded Let_def, folded c_def]
    show ?thesis
    proof (cases "c = []")
      case True
      with Cons.prems a RdData step have "ex = ReadReturned 0"
        and "w' = w\<lparr>trace := trace w @ [Read fd (unat n) 0 []]\<rparr>"
        by simp_all
      moreover have "loop_run fd (unat n) (ReadReturned 0) [Read fd (unat n) 0 []] []"
        by (rule loop_run.stop) simp
      ultimately show ?thesis by auto
    next
      case False
      show ?thesis
      proof (cases "wr = int (length c)")
        case mism: False
        with False Cons.prems a RdData step have "ex = WriteMismatch"
          and w': "w' = w\<lparr>mem := store_bytes (mem w) buf c, out := out w @ take (nat wr) c,
                trace := trace w @ [Read fd (unat n) (int (length c)) c, Write c wr]\<rparr>"
          by simp_all
        moreover have "loop_run fd (unat n) WriteMismatch
            [Read fd (unat n) (int (length c)) c, Write c wr] (take (nat wr) c)"
          using False mism by (rule loop_run.mismatch)
        moreover have "\<forall>x. SSIZE_MAX \<le> unat (x - buf) \<longrightarrow> mem w' x = mem w x"
          using len by (simp add: w' store_bytes_frame)
        ultimately show ?thesis by auto
      next
        case True
        define w2 where "w2 = w\<lparr>mem := store_bytes (mem w) buf c, out := out w @ c,
                trace := trace w @ [Read fd (unat n) (int (length c)) c, Write c wr]\<rparr>"
        from True False Cons.prems a RdData step
        have "copy_loop fd buf n s w2 = Some (ex, w')"
          by (simp add: w2_def)
        from Cons.IH [OF this] obtain evs d where
          run: "loop_run fd (unat n) ex evs d" and
          tr: "trace w' = trace w2 @ evs" and ou: "out w' = out w2 @ d" and
          fr: "\<forall>x. SSIZE_MAX \<le> unat (x - buf) \<longrightarrow> mem w' x = mem w2 x"
          by blast
        have "loop_run fd (unat n) ex
            (Read fd (unat n) (int (length c)) c # Write c (int (length c)) # evs) (c @ d)"
          using False run by (rule loop_run.iterate)
        moreover have "trace w' = trace w @ Read fd (unat n) (int (length c)) c # Write c (int (length c)) # evs"
          using tr True by (simp add: w2_def)
        moreover have "out w' = out w @ c @ d"
          using ou by (simp add: w2_def)
        moreover have "\<forall>x. SSIZE_MAX \<le> unat (x - buf) \<longrightarrow> mem w' x = mem w x"
          using fr len by (simp add: w2_def store_bytes_frame)
        ultimately show ?thesis by blast
      qed
    qed
  qed
qed

lemma copy_loop1_eq: "copy_loop1 fd buf s w = copy_loop fd buf 1 s w"
proof (induction s arbitrary: w)
  case Nil
  show ?case by simp
next
  case (Cons a s)
  obtain r wr where a: "a = (r, wr)" by (cases a)
  show ?case
  proof (cases r)
    case RdErr
    with a show ?thesis by (simp add: sys_read_def)
  next
    case (RdData bs)
    have "length (take (min (unat (1::64 word)) SSIZE_MAX) bs) \<le> 1"
      by simp
    then have "length (take (min (unat (1::64 word)) SSIZE_MAX) bs) = 0
        \<or> length (take (min (unat (1::64 word)) SSIZE_MAX) bs) = 1"
      by linarith
    then show ?thesis
      using a RdData Cons.IH
      by (auto simp add: sys_read_def sys_write_def Let_def split: prod.splits)
  qed
qed

lemma finish_Some:
  "finish e fd rel (Some (ex, w)) =
     Some (finish_code e ex, rel (w\<lparr>trace := trace w @ finish_events e fd ex\<rparr>))"
  by (cases ex)
     (simp_all add: finish_def finish_code_def finish_events_def sys_close_def perror_def emit_def)

lemma finish_None [simp]: "finish e fd rel None = None"
  by (simp add: finish_def)

lemma run_prelude: "run v e m = after_prelude e (prelude v e (start m))"
proof (cases v)
  case Mycat1
  then show ?thesis
    by (simp add: main1_def after_prelude_def copy_loop1_eq split: prod.splits)
next
  case Mycat2
  then show ?thesis
    by (simp add: main2_def after_prelude_def split: prod.splits)
next
  case Mycat4
  then show ?thesis
    by (simp add: main4_def after_prelude_def copy_aligned_def prelude_aligned_def split: prod.splits)
next
  case Mycat5
  then show ?thesis
    by (simp add: main5_def after_prelude_def copy_aligned_def prelude_aligned_def Let_def split: prod.splits)
next
  case Mycat6
  then show ?thesis
    by (simp add: main6_def after_prelude_def copy_aligned_def prelude_aligned_def Let_def split: prod.splits)
qed


section \<open>The allocator and the stored back-pointer\<close>

lemma align_alloc_eq:
  "align_alloc e n w =
    (let page = (if sysconf_ret e = - 1 then 4096 else sysconf_ret e);
         req = n + page - 1 + PTR_WIDTH;
         raw = malloc_ret e req;
         t = trace w @ Sysconf (sysconf_ret e)
               # (if sysconf_ret e = - 1 then [Diag WarnPageSize] else []) @ [Malloc req raw];
         a = (raw + PTR_WIDTH + page - 1) AND NOT (page - 1)
     in if raw = NULL then (NULL, w\<lparr>trace := t\<rparr>)
        else (a, w\<lparr>mem := store_ptr (mem w) (a - PTR_WIDTH) raw, trace := t\<rparr>))"
  by (simp add: align_alloc_def get_system_page_size_def malloc_def perror_def emit_def Let_def)

lemma unat_below: "i < 8 \<Longrightarrow> unat ((a::addr) - PTR_WIDTH + of_nat i - a) = 2 ^ 64 - 8 + i"
proof -
  assume i: "i < 8"
  have "(a::addr) - PTR_WIDTH + of_nat i - a = of_nat (2 ^ 64 - 8 + i)"
    by (simp add: PTR_WIDTH_def)
  then have "unat (a - PTR_WIDTH + of_nat i - a) = (2 ^ 64 - 8 + i) mod 2 ^ 64"
    by (simp only: unat_of_nat) simp
  with i show ?thesis by simp
qed

lemma load_bytes_cong:
  "(\<And>i. i < k \<Longrightarrow> m1 (p + of_nat i) = m2 (p + of_nat i)) \<Longrightarrow> load_bytes m1 p k = load_bytes m2 p k"
  by (simp add: load_bytes_def)

lemma stash_kept:
  assumes "\<forall>x. SSIZE_MAX \<le> unat (x - a) \<longrightarrow> m' x = m x"
  shows "load_ptr m' (a - PTR_WIDTH) = load_ptr m (a - PTR_WIDTH)"
proof -
  have "load_bytes m' (a - PTR_WIDTH) 8 = load_bytes m (a - PTR_WIDTH) 8"
  proof (rule load_bytes_cong)
    fix i :: nat
    assume "i < 8"
    then have "unat (a - PTR_WIDTH + of_nat i - a) = 2 ^ 64 - 8 + i"
      by (rule unat_below)
    then have "SSIZE_MAX \<le> unat (a - PTR_WIDTH + of_nat i - a)"
      by (simp add: SSIZE_MAX_def)
    with assms show "m' (a - PTR_WIDTH + of_nat i) = m (a - PTR_WIDTH + of_nat i)"
      by blast
  qed
  then show ?thesis by (simp add: load_ptr_def)
qed

lemma align_free_stash:
  assumes "a \<noteq> NULL" and "\<forall>x. SSIZE_MAX \<le> unat (x - a) \<longrightarrow> mem w x = store_ptr m (a - PTR_WIDTH) raw x"
  shows "align_free a w = free raw w"
proof -
  have "load_ptr (mem w) (a - PTR_WIDTH) = load_ptr (store_ptr m (a - PTR_WIDTH) raw) (a - PTR_WIDTH)"
    using assms(2) by (rule stash_kept)
  then show ?thesis
    using assms(1) by (simp add: align_free_def load_store_ptr)
qed

lemma prelude_aligned_Ready:
  assumes "prelude_aligned e fd n w = Ready fd' buf n' rel w1"
  shows "\<exists>req raw. fd' = fd \<and> n' = n \<and> out w1 = out w \<and> raw \<noteq> NULL \<and> buf \<noteq> NULL
      \<and> rel = align_free buf
      \<and> mem w1 = store_ptr (mem w) (buf - PTR_WIDTH) raw
      \<and> trace w1 = trace w @ Sysconf (sysconf_ret e)
            # (if sysconf_ret e = - 1 then [Diag WarnPageSize] else []) @ [Malloc req raw]"
  using assms
  by (simp add: prelude_aligned_def align_alloc_eq Let_def split: if_splits) auto

lemma prelude_aligned_Early:
  assumes "prelude_aligned e fd n w = Early code w1"
  shows "\<exists>req raw. code = EXIT_FAILURE \<and> out w1 = out w
      \<and> trace w1 = trace w @ Sysconf (sysconf_ret e)
            # (if sysconf_ret e = - 1 then [Diag WarnPageSize] else [])
            @ [Malloc req raw, Diag ErrAlloc, Close fd (close_ret e)]"
  using assms
  by (simp add: prelude_aligned_def align_alloc_eq Let_def sys_close_def perror_def emit_def
      split: if_splits) auto

lemma aligned_release:
  assumes "buf \<noteq> NULL" and "mem w1 = store_ptr m0 (buf - PTR_WIDTH) raw"
    and "\<forall>x. SSIZE_MAX \<le> unat (x - buf) \<longrightarrow> mem w x = mem w1 x"
  shows "align_free buf w = free raw w"
  using assms(1) by (rule align_free_stash [where m = m0]) (use assms(2,3) in simp)


section \<open>Block sizes\<close>

lemma io_blocksize4_eq:
  "io_blocksize4 e fd w =
    (let page = (if sysconf_ret e = - 1 then 4096 else sysconf_ret e);
         fs = (case fstat_ret e of Some b \<Rightarrow> b | None \<Rightarrow> 0);
         rec = (if 0 <s fs then fs else page);
         t = trace w @ Sysconf (sysconf_ret e)
               # (if sysconf_ret e = - 1 then [Diag WarnPageSize] else [])
               @ Fstat fd (fstat_ret e) # (if fstat_ret e = None then [Diag WarnFstat] else [])
     in (if rec < page then page else rec, w\<lparr>trace := t\<rparr>))"
  by (simp add: io_blocksize4_def get_system_page_size_def perror_def emit_def Let_def
      split: option.splits)

lemma io_blocksize2_eq:
  "io_blocksize2 e w =
    (if sysconf_ret e = - 1 then 4096 else sysconf_ret e,
     w\<lparr>trace := trace w @ Sysconf (sysconf_ret e)
               # (if sysconf_ret e = - 1 then [Diag WarnPageSize] else [])\<rparr>)"
  by (simp add: io_blocksize2_def perror_def emit_def Let_def)

lemma sysconf_ok_page: "sysconf_ok e \<Longrightarrow> (if sysconf_ret e = - 1 then 4096 else sysconf_ret e) \<noteq> (0::64 word)"
  by (auto simp add: sysconf_ok_def)

lemma word_pos_unat: "(x::64 word) \<noteq> 0 \<Longrightarrow> 0 < unat x"
  by (simp add: unat_gt_0)

lemma io_blocksize4_ge_page:
  "(if sysconf_ret e = - 1 then 4096 else sysconf_ret e) \<le> fst (io_blocksize4 e fd w)"
  by (simp add: io_blocksize4_eq Let_def not_less)

lemma prelude_Early:
  assumes "prelude v e (start m) = Early code w"
  shows "code = EXIT_FAILURE" and "out w = []" and "reads (trace w) = []" and "writes (trace w) = []"
    and "Usage \<in> set (diags (trace w)) \<or> ErrOpen \<in> set (diags (trace w))
         \<or> ErrAlloc \<in> set (diags (trace w))"
proof -
  have "code = EXIT_FAILURE \<and> out w = [] \<and> reads (trace w) = [] \<and> writes (trace w) = []
    \<and> (Usage \<in> set (diags (trace w)) \<or> ErrOpen \<in> set (diags (trace w))
         \<or> ErrAlloc \<in> set (diags (trace w)))"
  proof (cases v)
    case Mycat1
    with assms show ?thesis
      by (auto simp add: sys_open_def perror_def fprintf_stderr_def emit_def start_def
          split: if_splits)
  next
    case Mycat2
    with assms show ?thesis
      by (auto simp add: io_blocksize2_eq malloc_def free_def sys_open_def perror_def
          fprintf_stderr_def emit_def start_def split: if_splits)
  next
    case Mycat4
    with assms show ?thesis
      by (auto simp add: io_blocksize4_eq Let_def sys_open_def perror_def
          fprintf_stderr_def emit_def start_def split: if_splits dest!: prelude_aligned_Early)
  next
    case Mycat5
    with assms show ?thesis
      by (auto simp add: sys_open_def perror_def
          fprintf_stderr_def emit_def start_def split: if_splits dest!: prelude_aligned_Early)
  next
    case Mycat6
    with assms show ?thesis
      by (auto simp add: sys_open_def perror_def hint_sequential_def Let_def
          fprintf_stderr_def emit_def start_def split: if_splits dest!: prelude_aligned_Early)
  qed
  then show "code = EXIT_FAILURE" and "out w = []" and "reads (trace w) = []" and "writes (trace w) = []"
    and "Usage \<in> set (diags (trace w)) \<or> ErrOpen \<in> set (diags (trace w))
         \<or> ErrAlloc \<in> set (diags (trace w))"
    by simp_all
qed


section \<open>What the preambles establish\<close>

lemma prelude_Ready1:
  assumes "prelude Mycat1 e (start m) = Ready fd buf n rel w1"
  shows "out w1 = [] \<and> quiet (trace w1) \<and> opens (trace w1) = [fd] \<and> fd \<noteq> - 1
     \<and> mallocs (trace w1) = [] \<and> rel = (\<lambda>w. w) \<and> n = 1"
  using assms
  by (auto simp add: quiet_def sys_open_def perror_def fprintf_stderr_def emit_def start_def
      split: if_splits)

lemma prelude_Ready2:
  assumes "prelude Mycat2 e (start m) = Ready fd buf n rel w1"
  shows "out w1 = [] \<and> quiet (trace w1) \<and> opens (trace w1) = [fd] \<and> fd \<noteq> - 1
     \<and> mallocs (trace w1) = [(n, buf)] \<and> buf \<noteq> NULL \<and> rel = free buf
     \<and> n = (if sysconf_ret e = - 1 then 4096 else sysconf_ret e)"
  using assms
  by (auto simp add: quiet_def io_blocksize2_eq malloc_def sys_open_def perror_def
      fprintf_stderr_def emit_def start_def split: if_splits)

lemma prelude_Ready4:
  assumes "prelude Mycat4 e (start m) = Ready fd buf n rel w1"
  shows "\<exists>req raw m0. out w1 = [] \<and> quiet (trace w1) \<and> opens (trace w1) = [fd] \<and> fd \<noteq> - 1
     \<and> mallocs (trace w1) = [(req, raw)] \<and> raw \<noteq> NULL \<and> buf \<noteq> NULL \<and> rel = align_free buf
     \<and> mem w1 = store_ptr m0 (buf - PTR_WIDTH) raw
     \<and> n = fst (io_blocksize4 e fd (start m))"
  using assms
  by (auto simp add: quiet_def io_blocksize4_eq Let_def sys_open_def perror_def
      fprintf_stderr_def emit_def start_def split: if_splits dest!: prelude_aligned_Ready)

lemma prelude_Ready5:
  assumes "prelude Mycat5 e (start m) = Ready fd buf n rel w1"
  shows "\<exists>req raw m0. out w1 = [] \<and> quiet (trace w1) \<and> opens (trace w1) = [fd] \<and> fd \<noteq> - 1
     \<and> mallocs (trace w1) = [(req, raw)] \<and> raw \<noteq> NULL \<and> buf \<noteq> NULL \<and> rel = align_free buf
     \<and> mem w1 = store_ptr m0 (buf - PTR_WIDTH) raw
     \<and> n = OPTIMAL_BUFFER_SIZE"
  using assms
  by (auto simp add: quiet_def sys_open_def perror_def io_blocksize5_def
      fprintf_stderr_def emit_def start_def split: if_splits dest!: prelude_aligned_Ready)

lemma prelude_Ready6:
  assumes "prelude Mycat6 e (start m) = Ready fd buf n rel w1"
  shows "\<exists>req raw m0. out w1 = [] \<and> quiet (trace w1) \<and> opens (trace w1) = [fd] \<and> fd \<noteq> - 1
     \<and> mallocs (trace w1) = [(req, raw)] \<and> raw \<noteq> NULL \<and> buf \<noteq> NULL \<and> rel = align_free buf
     \<and> mem w1 = store_ptr m0 (buf - PTR_WIDTH) raw
     \<and> n = OPTIMAL_BUFFER_SIZE"
  using assms
  by (auto simp add: quiet_def sys_open_def perror_def io_blocksize5_def hint_sequential_def Let_def
      fprintf_stderr_def emit_def start_def split: if_splits dest!: prelude_aligned_Ready)

lemma free_shape: "free p w = w\<lparr>trace := trace w @ [Free p]\<rparr>"
  by (simp add: free_def emit_def)

lemma prelude_Ready:
  assumes "prelude v e (start m) = Ready fd buf n rel w1"
  shows "out w1 = []" and "quiet (trace w1)" and "opens (trace w1) = [fd]" and "fd \<noteq> - 1"
    and "\<exists>rel_evs. (\<forall>w. (\<forall>x. SSIZE_MAX \<le> unat (x - buf) \<longrightarrow> mem w x = mem w1 x)
             \<longrightarrow> rel w = w\<lparr>trace := trace w @ rel_evs\<rparr>)
           \<and> rel_evs = map Free (map snd (mallocs (trace w1)))
           \<and> (v = Mycat1 \<longrightarrow> mallocs (trace w1) = [])
           \<and> (v \<noteq> Mycat1 \<longrightarrow> (\<exists>req raw. mallocs (trace w1) = [(req, raw)] \<and> raw \<noteq> NULL))"
    and "(v = Mycat2 \<or> v = Mycat4 \<longrightarrow> sysconf_ok e) \<Longrightarrow> 0 < unat n"
proof -
  have "out w1 = [] \<and> quiet (trace w1) \<and> opens (trace w1) = [fd] \<and> fd \<noteq> - 1
    \<and> (\<exists>rel_evs. (\<forall>w. (\<forall>x. SSIZE_MAX \<le> unat (x - buf) \<longrightarrow> mem w x = mem w1 x)
             \<longrightarrow> rel w = w\<lparr>trace := trace w @ rel_evs\<rparr>)
           \<and> rel_evs = map Free (map snd (mallocs (trace w1)))
           \<and> (v = Mycat1 \<longrightarrow> mallocs (trace w1) = [])
           \<and> (v \<noteq> Mycat1 \<longrightarrow> (\<exists>req raw. mallocs (trace w1) = [(req, raw)] \<and> raw \<noteq> NULL)))
    \<and> ((v = Mycat2 \<or> v = Mycat4 \<longrightarrow> sysconf_ok e) \<longrightarrow> 0 < unat n)"
  proof (cases v)
    case Mycat1
    with assms show ?thesis
      using prelude_Ready1 [of e m fd buf n rel w1] by simp
  next
    case Mycat2
    with assms have f: "out w1 = [] \<and> quiet (trace w1) \<and> opens (trace w1) = [fd] \<and> fd \<noteq> - 1
       \<and> mallocs (trace w1) = [(n, buf)] \<and> buf \<noteq> NULL \<and> rel = free buf
       \<and> n = (if sysconf_ret e = - 1 then 4096 else sysconf_ret e)"
      using prelude_Ready2 [of e m fd buf n rel w1] by simp
    then have "sysconf_ok e \<longrightarrow> 0 < unat n"
      using sysconf_ok_page [of e] word_pos_unat [of n] by simp
    with f Mycat2 show ?thesis
      by (simp add: free_shape)
  next
    case Mycat4
    with assms obtain req raw m0 where f: "out w1 = [] \<and> quiet (trace w1) \<and> opens (trace w1) = [fd]
       \<and> fd \<noteq> - 1 \<and> mallocs (trace w1) = [(req, raw)] \<and> raw \<noteq> NULL \<and> buf \<noteq> NULL
       \<and> rel = align_free buf \<and> mem w1 = store_ptr m0 (buf - PTR_WIDTH) raw
       \<and> n = fst (io_blocksize4 e fd (start m))"
      using prelude_Ready4 [of e m fd buf n rel w1] by blast
    have "sysconf_ok e \<longrightarrow> 0 < unat n"
    proof
      assume "sysconf_ok e"
      then have "(if sysconf_ret e = - 1 then 4096 else sysconf_ret e) \<noteq> (0::64 word)"
        by (rule sysconf_ok_page)
      moreover have "(if sysconf_ret e = - 1 then 4096 else sysconf_ret e) \<le> n"
        using f io_blocksize4_ge_page [of e fd "start m"] by simp
      ultimately have "n \<noteq> 0" by auto
      then show "0 < unat n" by (rule word_pos_unat)
    qed
    moreover have "\<forall>w. (\<forall>x. SSIZE_MAX \<le> unat (x - buf) \<longrightarrow> mem w x = mem w1 x)
             \<longrightarrow> rel w = w\<lparr>trace := trace w @ [Free raw]\<rparr>"
      using f aligned_release [of buf w1 m0 raw] by (simp add: free_shape)
    ultimately show ?thesis
      using f Mycat4 by simp
  next
    case Mycat5
    with assms obtain req raw m0 where f: "out w1 = [] \<and> quiet (trace w1) \<and> opens (trace w1) = [fd]
       \<and> fd \<noteq> - 1 \<and> mallocs (trace w1) = [(req, raw)] \<and> raw \<noteq> NULL \<and> buf \<noteq> NULL
       \<and> rel = align_free buf \<and> mem w1 = store_ptr m0 (buf - PTR_WIDTH) raw
       \<and> n = OPTIMAL_BUFFER_SIZE"
      using prelude_Ready5 [of e m fd buf n rel w1] by blast
    have "0 < unat n"
      using f by (simp add: OPTIMAL_BUFFER_SIZE_def)
    moreover have "\<forall>w. (\<forall>x. SSIZE_MAX \<le> unat (x - buf) \<longrightarrow> mem w x = mem w1 x)
             \<longrightarrow> rel w = w\<lparr>trace := trace w @ [Free raw]\<rparr>"
      using f aligned_release [of buf w1 m0 raw] by (simp add: free_shape)
    ultimately show ?thesis
      using f Mycat5 by simp
  next
    case Mycat6
    with assms obtain req raw m0 where f: "out w1 = [] \<and> quiet (trace w1) \<and> opens (trace w1) = [fd]
       \<and> fd \<noteq> - 1 \<and> mallocs (trace w1) = [(req, raw)] \<and> raw \<noteq> NULL \<and> buf \<noteq> NULL
       \<and> rel = align_free buf \<and> mem w1 = store_ptr m0 (buf - PTR_WIDTH) raw
       \<and> n = OPTIMAL_BUFFER_SIZE"
      using prelude_Ready6 [of e m fd buf n rel w1] by blast
    have "0 < unat n"
      using f by (simp add: OPTIMAL_BUFFER_SIZE_def)
    moreover have "\<forall>w. (\<forall>x. SSIZE_MAX \<le> unat (x - buf) \<longrightarrow> mem w x = mem w1 x)
             \<longrightarrow> rel w = w\<lparr>trace := trace w @ [Free raw]\<rparr>"
      using f aligned_release [of buf w1 m0 raw] by (simp add: free_shape)
    ultimately show ?thesis
      using f Mycat6 by simp
  qed
  then show "out w1 = []" and "quiet (trace w1)" and "opens (trace w1) = [fd]" and "fd \<noteq> - 1"
    and "\<exists>rel_evs. (\<forall>w. (\<forall>x. SSIZE_MAX \<le> unat (x - buf) \<longrightarrow> mem w x = mem w1 x)
             \<longrightarrow> rel w = w\<lparr>trace := trace w @ rel_evs\<rparr>)
           \<and> rel_evs = map Free (map snd (mallocs (trace w1)))
           \<and> (v = Mycat1 \<longrightarrow> mallocs (trace w1) = [])
           \<and> (v \<noteq> Mycat1 \<longrightarrow> (\<exists>req raw. mallocs (trace w1) = [(req, raw)] \<and> raw \<noteq> NULL))"
    and "(v = Mycat2 \<or> v = Mycat4 \<longrightarrow> sysconf_ok e) \<Longrightarrow> 0 < unat n"
    by blast+
qed

text \<open>A run that ends is an early exit, or a preamble, a loop and an epilogue.\<close>

lemma run_Some_cases [consumes 1, case_names early looped]:
  assumes "run v e m = Some (code, w)"
  obtains "prelude v e (start m) = Early code w"
  | fd buf n rel w1 ex evs where
      "prelude v e (start m) = Ready fd buf n rel w1"
      "loop_run fd (unat n) ex evs (out w)"
      "code = finish_code e ex"
      "trace w = trace w1 @ evs @ finish_events e fd ex @ map Free (map snd (mallocs (trace w1)))"
      "\<exists>w2. copy_loop fd buf n (script e) w1 = Some (ex, w2) \<and> trace w2 = trace w1 @ evs"
proof (cases "prelude v e (start m)")
  case (Early c w0)
  with assms have "prelude v e (start m) = Early code w"
    by (simp add: run_prelude after_prelude_def)
  then show ?thesis by (rule that(1))
next
  case (Ready fd buf n rel w1)
  with assms have fin: "finish e fd rel (copy_loop fd buf n (script e) w1) = Some (code, w)"
    by (simp add: run_prelude after_prelude_def)
  then obtain ex w2 where loop: "copy_loop fd buf n (script e) w1 = Some (ex, w2)"
    by (cases "copy_loop fd buf n (script e) w1") auto
  from copy_loop_run [OF loop] obtain evs d where
    run: "loop_run fd (unat n) ex evs d" and tr: "trace w2 = trace w1 @ evs"
    and ou: "out w2 = out w1 @ d"
    and fr: "\<forall>x. SSIZE_MAX \<le> unat (x - buf) \<longrightarrow> mem w2 x = mem w1 x"
    by blast
  from prelude_Ready(5) [OF Ready] obtain rel_evs where
    rel: "\<forall>w. (\<forall>x. SSIZE_MAX \<le> unat (x - buf) \<longrightarrow> mem w x = mem w1 x)
             \<longrightarrow> rel w = w\<lparr>trace := trace w @ rel_evs\<rparr>"
    and rel_evs: "rel_evs = map Free (map snd (mallocs (trace w1)))"
    by blast
  define w3 where "w3 = w2\<lparr>trace := trace w2 @ finish_events e fd ex\<rparr>"
  have "\<forall>x. SSIZE_MAX \<le> unat (x - buf) \<longrightarrow> mem w3 x = mem w1 x"
    using fr by (simp add: w3_def)
  with rel have "rel w3 = w3\<lparr>trace := trace w3 @ rel_evs\<rparr>"
    by blast
  moreover from fin loop have "code = finish_code e ex" and "w = rel w3"
    by (simp_all add: finish_Some w3_def)
  ultimately have w: "w = w3\<lparr>trace := trace w3 @ rel_evs\<rparr>" and code: "code = finish_code e ex"
    by simp_all
  have "out w = d"
    using w ou prelude_Ready(1) [OF Ready] by (simp add: w3_def)
  with run have r1: "loop_run fd (unat n) ex evs (out w)"
    by simp
  have r2: "trace w = trace w1 @ evs @ finish_events e fd ex @ map Free (map snd (mallocs (trace w1)))"
    using w tr rel_evs by (simp add: w3_def)
  have r3: "\<exists>w2. copy_loop fd buf n (script e) w1 = Some (ex, w2) \<and> trace w2 = trace w1 @ evs"
    using loop tr by blast
  show ?thesis
    by (rule that(2) [OF Ready r1 code r2 r3])
qed


section \<open>The filesystem-aware block size\<close>

lemma nonneg_sint_uint:
  fixes x :: "64 word"
  assumes "0 \<le> sint x"
  shows "sint x = uint x"
proof -
  have "sint x < 2 ^ 63"
    using sint_lt [of x] by simp
  then have "sint x < 2 ^ 64"
    by simp
  with assms have "take_bit 64 (sint x) = sint x"
    by (simp add: take_bit_int_eq_self)
  with uint_sint [of x] show ?thesis
    by simp
qed

lemma pos_signed_orders:
  fixes p b :: "64 word"
  assumes "0 <s p"
  shows "p \<le>s b \<Longrightarrow> 0 <s b \<and> p \<le> b" and "b <s p \<Longrightarrow> 0 <s b \<Longrightarrow> b < p"
proof -
  from assms have p: "0 < sint p"
    by (simp add: word_sless_alt)
  then have up: "sint p = uint p"
    by (simp add: nonneg_sint_uint)
  {
    assume "p \<le>s b"
    then have "sint p \<le> sint b"
      by (simp add: word_sle_eq)
    with p have "0 < sint b" by linarith
    then have "sint b = uint b"
      by (simp add: nonneg_sint_uint)
    with \<open>sint p \<le> sint b\<close> up \<open>0 < sint b\<close> show "0 <s b \<and> p \<le> b"
      by (simp add: word_sless_alt word_le_def)
  }
  {
    assume "b <s p" and "0 <s b"
    then have "sint b < sint p" and "0 < sint b"
      by (simp_all add: word_sless_alt)
    then have "sint b = uint b"
      by (simp add: nonneg_sint_uint)
    with \<open>sint b < sint p\<close> up show "b < p"
      by (simp add: word_less_def)
  }
qed

text \<open>
  Claim C6. The filesystem-aware \<open>io_blocksize\<close> of mycat4.c never returns less than the
  page size. For a positive page size it returns the block size that \<open>fstat\<close> reports
  when that is at least the page size, and the page size otherwise: when \<open>fstat\<close>
  fails and when the reported block size is smaller than the page size.
\<close>

theorem io_blocksize4_clamped:
  assumes "page_size = fst (get_system_page_size e w)" and "b = fst (io_blocksize4 e fd w)"
  shows "page_size \<le> b \<and>
    (0 <s page_size \<longrightarrow>
      (case fstat_ret e of
         None \<Rightarrow> b = page_size
       | Some blksize \<Rightarrow> (page_size \<le>s blksize \<longrightarrow> b = blksize) \<and> (blksize <s page_size \<longrightarrow> b = page_size)))"
proof -
  have ps: "page_size = (if sysconf_ret e = - 1 then 4096 else sysconf_ret e)"
    using assms(1) by (simp add: get_system_page_size_def Let_def)
  have ge: "page_size \<le> b"
    using assms(2) ps io_blocksize4_ge_page [of e fd w] by simp
  have "0 <s page_size \<Longrightarrow> (case fstat_ret e of
         None \<Rightarrow> b = page_size
       | Some blksize \<Rightarrow> (page_size \<le>s blksize \<longrightarrow> b = blksize) \<and> (blksize <s page_size \<longrightarrow> b = page_size))"
  proof (cases "fstat_ret e")
    case None
    then show ?thesis
      using assms(2) ps by (simp add: io_blocksize4_eq Let_def)
  next
    case (Some blksize)
    assume pos: "0 <s page_size"
    have b: "b = (let rec = (if 0 <s blksize then blksize else page_size) in
                  if rec < page_size then page_size else rec)"
      using assms(2) ps Some by (simp add: io_blocksize4_eq Let_def)
    have "page_size \<le>s blksize \<longrightarrow> b = blksize"
      using pos_signed_orders(1) [OF pos, of blksize] b by (auto simp add: Let_def not_less)
    moreover have "blksize <s page_size \<longrightarrow> b = page_size"
      using pos_signed_orders(2) [OF pos, of blksize] b by (auto simp add: Let_def)
    ultimately show ?thesis
      using Some by simp
  qed
  with ge show ?thesis by blast
qed


section \<open>The aligned allocator\<close>

theorem io_blocksize4_clamped_witness:
  "fst (get_system_page_size env_ok (start mem0)) = 4096
   \<and> fst (io_blocksize4 env_ok 3 (start mem0)) = 65536
   \<and> (4096 :: 64 word) \<le> 65536 \<and> 0 <s (4096 :: 64 word) \<and> (4096 :: 64 word) \<le>s 65536"
proof -
  have h1: "4096 = fst (get_system_page_size env_ok (start mem0))"
    by (simp add: get_system_page_size_def env_ok_def Let_def)
  have h2: "65536 = fst (io_blocksize4 env_ok 3 (start mem0))"
    by (simp add: io_blocksize4_eq env_ok_def Let_def word_sless_alt)
  have s1: "0 <s (4096 :: 64 word)"
    by (simp add: word_sless_alt)
  have s2: "(4096 :: 64 word) \<le>s 65536"
    by simp
  have f: "fstat_ret env_ok = Some 65536"
    by (simp add: env_ok_def)
  from io_blocksize4_clamped [OF h1 h2] h1 [symmetric] h2 [symmetric] s1 s2 f show ?thesis
    by simp
qed

text \<open>
  Claim C3. After a successful \<open>align_alloc\<close> the pointer stored in the
  \<open>sizeof(void*)\<close> bytes just below the returned address is the pointer \<open>malloc\<close>
  returned; \<open>align_free\<close> of the returned address reads that pointer back and frees
  exactly it; \<open>align_free\<close> of a null pointer changes nothing.
\<close>

theorem stash_round_trip:
  assumes "align_alloc e n w = (a, w1)" and "a \<noteq> NULL"
  shows "\<exists>req raw. mallocs (trace w1) = mallocs (trace w) @ [(req, raw)] \<and> raw \<noteq> NULL
     \<and> load_ptr (mem w1) (a - PTR_WIDTH) = raw
     \<and> align_free a w1 = free raw w1
     \<and> frees (trace (align_free a w1)) = frees (trace w1) @ [raw]
     \<and> align_free NULL w' = w'"
proof -
  define page where "page = (if sysconf_ret e = - 1 then 4096 else sysconf_ret e)"
  define req where "req = n + page - 1 + PTR_WIDTH"
  define raw where "raw = malloc_ret e req"
  have raw: "raw \<noteq> NULL"
    using assms by (auto simp add: align_alloc_eq Let_def raw_def req_def page_def split: if_splits)
  with assms(1) have a: "a = (raw + PTR_WIDTH + page - 1) AND NOT (page - 1)"
    and m: "mem w1 = store_ptr (mem w) (a - PTR_WIDTH) raw"
    and t: "trace w1 = trace w @ Sysconf (sysconf_ret e)
               # (if sysconf_ret e = - 1 then [Diag WarnPageSize] else []) @ [Malloc req raw]"
    by (auto simp add: align_alloc_eq Let_def raw_def req_def page_def split: if_splits)
  have ld: "load_ptr (mem w1) (a - PTR_WIDTH) = raw"
    by (simp add: m load_store_ptr)
  then have fr: "align_free a w1 = free raw w1"
    using assms(2) by (simp add: align_free_def)
  have "mallocs (trace w1) = mallocs (trace w) @ [(req, raw)]"
    by (simp add: t)
  moreover have "frees (trace (align_free a w1)) = frees (trace w1) @ [raw]"
    by (simp add: fr free_shape)
  moreover have "align_free NULL w' = w'"
    by (simp add: align_free_def)
  ultimately show ?thesis
    using raw ld fr by blast
qed

lemma align_alloc_env_ok:
  "fst (align_alloc env_ok 100 (start mem0)) = 69632"
  by (simp add: align_alloc_eq env_ok_def Let_def PTR_WIDTH_def NULL_def)

theorem stash_round_trip_witness:
  "fst (align_alloc env_ok 100 (start mem0)) \<noteq> NULL
   \<and> load_ptr (mem (snd (align_alloc env_ok 100 (start mem0)))) (69632 - PTR_WIDTH) = 65536
   \<and> frees (trace (align_free 69632 (snd (align_alloc env_ok 100 (start mem0))))) = [65536]"
proof -
  have h1: "align_alloc env_ok 100 (start mem0) = (69632, snd (align_alloc env_ok 100 (start mem0)))"
    using align_alloc_env_ok by (simp add: prod_eq_iff)
  have h2: "(69632 :: addr) \<noteq> NULL"
    by (simp add: NULL_def)
  have t: "trace (snd (align_alloc env_ok 100 (start mem0))) = [Sysconf 4096, Malloc 4203 65536]"
    by (simp add: align_alloc_eq env_ok_def Let_def PTR_WIDTH_def NULL_def start_def)
  from stash_round_trip [OF h1 h2, where w' = "start mem0"] t h2 show ?thesis
    by (auto simp add: align_alloc_env_ok)
qed





text \<open>
  The sizes that the programs pass to \<open>align_alloc\<close> (the result of the filesystem-aware
  \<open>io_blocksize\<close> in mycat4.c, 2 MiB in mycat5.c and mycat6.c) never make the request
  wrap around, whatever power of two the page size is.
\<close>

lemma signed_pos_bound:
  fixes x :: "64 word"
  assumes "0 <s x"
  shows "unat x < 2 ^ 63"
proof -
  from assms have pos: "0 < sint x"
    by (simp add: word_sless_alt)
  then have "sint x = uint x"
    by (simp add: nonneg_sint_uint)
  moreover have "sint x < 2 ^ 63"
    using sint_lt [of x] by simp
  ultimately have "uint x < 2 ^ 63"
    by simp
  then have "nat (uint x) < nat (2 ^ 63)"
    using pos \<open>sint x = uint x\<close> by (simp only: nat_less_eq_zless)
  then show ?thesis
    by simp
qed

lemma sizes_passed_fit:
  assumes ok: "sysconf_ok e" and page: "fst (get_system_page_size e w') = 2 ^ k" and k: "k < 64"
    and n: "n = fst (io_blocksize4 e fd w) \<or> n = io_blocksize5"
  shows "unat n + 2 ^ k + 7 < 2 ^ 64"
proof -
  define p :: "64 word" where "p = (if sysconf_ret e = - 1 then 4096 else sysconf_ret e)"
  have pk: "p = 2 ^ k"
    using page by (simp add: get_system_page_size_def Let_def p_def split: if_splits)
  have "p = 4096 \<or> 0 <s p"
    using ok by (auto simp add: sysconf_ok_def p_def)
  then have pb: "unat p < 2 ^ 63"
  proof
    assume "p = 4096"
    then show ?thesis by simp
  next
    assume "0 <s p"
    then show ?thesis by (rule signed_pos_bound)
  qed
  have "unat p = 2 ^ k"
    using pk unat_pow2_64 [OF k] by simp
  with pb have "(2::nat) ^ k < 2 ^ 63"
    by simp
  then have "k < 63"
    by (simp only: power_strict_increasing_iff)
  then have "k \<le> 62"
    by simp
  then have "(2::nat) ^ k \<le> 2 ^ 62"
    by (rule power_increasing) simp
  moreover have "unat n < 2 ^ 63"
    using n
  proof
    assume n4: "n = fst (io_blocksize4 e fd w)"
    define fs :: "64 word" where "fs = (case fstat_ret e of Some b \<Rightarrow> b | None \<Rightarrow> 0)"
    have "n = p \<or> (n = fs \<and> 0 <s fs)"
      using n4 by (auto simp add: io_blocksize4_eq Let_def p_def fs_def)
    then show ?thesis
      using pb signed_pos_bound [of fs] by auto
  next
    assume "n = io_blocksize5"
    then show ?thesis
      by (simp add: io_blocksize5_def OPTIMAL_BUFFER_SIZE_def)
  qed
  ultimately show ?thesis
    by simp
qed

section \<open>What the loop leaves in the trace\<close>

lemma loop_run_obs:
  assumes "loop_run fd n ex evs d"
  shows "mallocs evs = []" and "frees evs = []" and "opens evs = []" and "closes evs = []"
    and "diags evs = []"
  using assms by (induction rule: loop_run.induct) simp_all

lemma loop_run_chunks:
  assumes "loop_run fd n ex evs d"
  shows "prefix d (chunks_read evs) \<and> (ex \<noteq> WriteMismatch \<longrightarrow> d = chunks_read evs)"
  using assms
proof (induction rule: loop_run.induct)
  case (stop r fd n)
  then show ?case by auto
next
  case (mismatch c wr fd n)
  then show ?case by (simp add: take_is_prefix)
next
  case (iterate c fd n ex evs d)
  then show ?case by simp
qed

lemma loop_run_file:
  assumes "loop_run fd n ex evs d" and "file_reads F evs"
  shows "prefix (chunks_read evs) F \<and> (ex = ReadReturned 0 \<longrightarrow> 0 < n \<longrightarrow> chunks_read evs = F)"
  using assms
proof (induction arbitrary: F rule: loop_run.induct)
  case (stop r fd n)
  then show ?case by auto
next
  case (mismatch c wr fd n)
  then have "c = take (length c) F"
    by simp
  then have "prefix c F"
    by (metis take_is_prefix)
  then show ?case by simp
next
  case (iterate c fd n ex evs d)
  from iterate.prems iterate.hyps(1) have c: "c = take (length c) F"
    and rest: "file_reads (drop (length c) F) evs"
    by simp_all
  from iterate.IH [OF rest]
  have p: "prefix (chunks_read evs) (drop (length c) F)"
    and q: "ex = ReadReturned 0 \<longrightarrow> 0 < n \<longrightarrow> chunks_read evs = drop (length c) F"
    by simp_all
  have F: "F = c @ drop (length c) F"
    using c by (metis append_take_drop_id)
  have "prefix (c @ chunks_read evs) (c @ drop (length c) F)"
    using p by simp
  with F have "prefix (c @ chunks_read evs) F"
    by simp
  moreover have "ex = ReadReturned 0 \<longrightarrow> 0 < n \<longrightarrow> c @ chunks_read evs = F"
    using q F by auto
  ultimately show ?case
    using iterate.hyps(1) by simp
qed

lemma file_reads_skip: "reads pre = [] \<Longrightarrow> file_reads F (pre @ t) = file_reads F t"
proof (induction pre)
  case Nil
  show ?case by simp
next
  case (Cons ev pre)
  then show ?case by (cases ev) simp_all
qed

lemma file_reads_front: "file_reads F (t @ u) \<Longrightarrow> file_reads F t"
proof (induction t arbitrary: F)
  case Nil
  show ?case by simp
next
  case (Cons ev t)
  then show ?case by (cases ev) (auto split: if_splits)
qed

lemma no_reads_no_chunks: "reads t = [] \<Longrightarrow> chunks_read t = []"
proof (induction t)
  case Nil
  show ?case by simp
next
  case (Cons ev t)
  then show ?case by (cases ev) simp_all
qed

lemma nwae_no_reads: "reads t = [] \<Longrightarrow> no_write_after_end t"
proof (induction t)
  case Nil
  show ?case by simp
next
  case (Cons ev t)
  then show ?case by (cases ev) simp_all
qed

lemma nwae_skip: "reads pre = [] \<Longrightarrow> no_write_after_end (pre @ t) = no_write_after_end t"
proof (induction pre)
  case Nil
  show ?case by simp
next
  case (Cons ev pre)
  then show ?case by (cases ev) simp_all
qed

lemma loop_run_nwae:
  assumes "loop_run fd n ex evs d" and "reads t = []" and "writes t = []"
  shows "no_write_after_end (evs @ t)"
  using assms
proof (induction rule: loop_run.induct)
  case (stop r fd n)
  then show ?case by auto
next
  case (mismatch c wr fd n)
  then show ?case by (simp add: nwae_no_reads)
next
  case (iterate c fd n ex evs d)
  then show ?case by simp
qed

lemma loop_run_mismatch:
  assumes "loop_run fd n ex evs d" and "(bs, r) \<in> set (writes evs)" and "r \<noteq> int (length bs)"
  shows "ex = WriteMismatch \<and> bs \<noteq> []
     \<and> (\<exists>evs'. evs = evs' @ [Read fd n (int (length bs)) bs, Write bs r] \<and> mallocs evs' = [])"
  using assms
proof (induction rule: loop_run.induct)
  case (stop r fd n)
  then show ?case by simp
next
  case (mismatch c wr fd n)
  then have "bs = c" and "r = wr"
    by simp_all
  with mismatch.hyps show ?case by simp
next
  case (iterate c fd n ex evs d)
  from iterate.prems have "(bs, r) \<in> set (writes evs)"
    by auto
  from iterate.IH [OF this iterate.prems(2)] obtain evs' where
    "ex = WriteMismatch" and "bs \<noteq> []"
    and "evs = evs' @ [Read fd n (int (length bs)) bs, Write bs r]" and "mallocs evs' = []"
    by blast
  then have "Read fd n (int (length c)) c # Write c (int (length c)) # evs
      = (Read fd n (int (length c)) c # Write c (int (length c)) # evs')
        @ [Read fd n (int (length bs)) bs, Write bs r]
    \<and> mallocs (Read fd n (int (length c)) c # Write c (int (length c)) # evs') = []"
    by simp
  with \<open>ex = WriteMismatch\<close> \<open>bs \<noteq> []\<close> show ?case
    by blast
qed

lemma quietD:
  assumes "quiet t"
  shows "reads t = []" and "writes t = []" and "closes t = []" and "frees t = []"
    and "chunks_read t = []"
    and "Usage \<notin> set (diags t)" and "ErrAlloc \<notin> set (diags t)" and "ErrOpen \<notin> set (diags t)"
    and "ErrWrite \<notin> set (diags t)" and "ErrRead \<notin> set (diags t)" and "ErrClose \<notin> set (diags t)"
  using assms by (auto simp add: quiet_def)

lemma finish_events_obs:
  "reads (finish_events e fd ex) = []" "writes (finish_events e fd ex) = []"
  "chunks_read (finish_events e fd ex) = []" "mallocs (finish_events e fd ex) = []"
  "frees (finish_events e fd ex) = []" "opens (finish_events e fd ex) = []"
  "closes (finish_events e fd ex) = [fd]"
  by (simp_all add: finish_events_def split: loop_exit.splits)

lemma map_Free_obs:
  "reads (map Free ps) = []" "writes (map Free ps) = []" "chunks_read (map Free ps) = []"
  "mallocs (map Free ps) = []" "frees (map Free ps) = ps" "opens (map Free ps) = []"
  "closes (map Free ps) = []" "diags (map Free ps) = []"
  by (induction ps) simp_all

lemma map_Free_snd_obs:
  "reads (map (Free \<circ> snd) ms) = []" "writes (map (Free \<circ> snd) ms) = []"
  "chunks_read (map (Free \<circ> snd) ms) = []" "mallocs (map (Free \<circ> snd) ms) = []"
  "frees (map (Free \<circ> snd) ms) = map snd ms" "opens (map (Free \<circ> snd) ms) = []"
  "closes (map (Free \<circ> snd) ms) = []" "diags (map (Free \<circ> snd) ms) = []"
  by (induction ms) simp_all

section \<open>The copy is faithful\<close>

lemma loop_run_exit:
  assumes "loop_run fd n ex evs d" and "ex = ReadReturned r"
  shows "r = 0 \<or> r = - 1"
  using assms by (induction rule: loop_run.induct) simp_all

lemma finish_code_success:
  assumes "finish_code e ex = EXIT_SUCCESS"
  shows "\<exists>r. ex = ReadReturned r \<and> r \<noteq> - 1"
  using assms
  by (cases ex) (simp_all add: finish_code_def EXIT_SUCCESS_def EXIT_FAILURE_def split: if_splits)

lemma loop_run_last_read:
  assumes "loop_run fd n ex evs d"
  shows "reads evs \<noteq> [] \<and> (last (reads evs) = 0 \<longrightarrow> ex = ReadReturned 0)"
  using assms by (induction rule: loop_run.induct) auto

text \<open>
  Claim C1. Whatever the program (and so whatever the block size policy: one byte, the
  page size, the filesystem-aware size or the fixed 2 MiB), if the reads of a run are
  those of a file with contents \<open>F\<close> and the run is successful, then the bytes written
  to standard output are exactly \<open>F\<close>; so the lengths agree and an empty file gives no
  output. Successful means that the program exits with status 0, or at least that the
  loop ends with a read that returns 0 (the close may still fail). For mycat2 and
  mycat4, whose block size comes from the page size, the page-size query is assumed to
  answer as documented.
\<close>

theorem copy_identical:
  assumes "run v e m = Some (code, w)" and "file_reads F (trace w)"
    and "v = Mycat2 \<or> v = Mycat4 \<longrightarrow> sysconf_ok e"
    and "code = EXIT_SUCCESS \<or> (reads (trace w) \<noteq> [] \<and> last (reads (trace w)) = 0)"
  shows "out w = F \<and> length (out w) = length F \<and> (F = [] \<longrightarrow> out w = [])"
  using assms(1)
proof (cases rule: run_Some_cases)
  case early
  from prelude_Early(1,3) [OF early] assms(4) show ?thesis
    by (simp add: EXIT_SUCCESS_def EXIT_FAILURE_def)
next
  case (looped fd buf n rel w1 ex evs)
  note q = quietD [OF prelude_Ready(2) [OF looped(1)]]
  have rd: "reads (trace w) = reads evs"
    using looped(4) q(1) by (simp add: finish_events_obs map_Free_obs map_Free_snd_obs)
  have r: "ex = ReadReturned 0"
  proof (cases "code = EXIT_SUCCESS")
    case True
    with looped(3) obtain r where ex: "ex = ReadReturned r" and "r \<noteq> - 1"
      using finish_code_success [of e ex] by auto
    with loop_run_exit [OF looped(2) ex] show ?thesis
      by simp
  next
    case False
    with assms(4) rd have "last (reads evs) = 0"
      by simp
    with loop_run_last_read [OF looped(2)] show ?thesis
      by simp
  qed
  from assms(2) looped(4) q(1) have "file_reads F evs"
    using file_reads_front [of F evs] by (simp add: file_reads_skip)
  from loop_run_file [OF looped(2) this] r prelude_Ready(6) [OF looped(1) assms(3)]
  have "chunks_read evs = F"
    by simp
  moreover from loop_run_chunks [OF looped(2)] r have "out w = chunks_read evs"
    by simp
  ultimately show ?thesis
    by simp
qed

section \<open>Output and chunks read\<close>

text \<open>
  Claim C9 as stated fails. mycat5 reads the chunk \<open>[104, 105]\<close>, \<open>write\<close> returns \<open>-1\<close>,
  and the program exits with status 1: nothing has reached standard output, although
  one chunk has been read.
\<close>

theorem output_not_all_chunks:
  "run Mycat5 env_wfail mem0 \<noteq> None
   \<and> fst (the (run Mycat5 env_wfail mem0)) = EXIT_FAILURE
   \<and> chunks_read (trace (snd (the (run Mycat5 env_wfail mem0)))) = [104, 105]
   \<and> out (snd (the (run Mycat5 env_wfail mem0))) = []
   \<and> out (snd (the (run Mycat5 env_wfail mem0)))
       \<noteq> chunks_read (trace (snd (the (run Mycat5 env_wfail mem0))))"
  by (simp add: main5_def copy_aligned_def align_alloc_eq Let_def copy_loop_RdData
      finish_Some finish_events_def finish_code_def align_free_def free_def
      sys_open_def fprintf_stderr_def emit_def start_def io_blocksize5_def
      OPTIMAL_BUFFER_SIZE_def env_wfail_def env_ok_def NULL_def PTR_WIDTH_def SSIZE_MAX_def
      EXIT_FAILURE_def del: copy_loop.simps)

lemma finish_events_ErrWrite:
  "ErrWrite \<in> set (diags (finish_events e fd ex)) \<longleftrightarrow> ex = WriteMismatch"
  by (cases ex) (simp_all add: finish_events_def)

lemma prelude_Early_no_ErrWrite:
  assumes "prelude v e (start m) = Early code w"
  shows "ErrWrite \<notin> set (diags (trace w))"
proof (cases v)
  case Mycat1
  with assms show ?thesis
    by (auto simp add: sys_open_def perror_def fprintf_stderr_def emit_def start_def
        split: if_splits)
next
  case Mycat2
  with assms show ?thesis
    by (auto simp add: io_blocksize2_eq malloc_def free_def sys_open_def perror_def
        fprintf_stderr_def emit_def start_def split: if_splits)
next
  case Mycat4
  with assms show ?thesis
    by (auto simp add: io_blocksize4_eq Let_def sys_open_def perror_def
        fprintf_stderr_def emit_def start_def split: if_splits dest!: prelude_aligned_Early)
next
  case Mycat5
  with assms show ?thesis
    by (auto simp add: sys_open_def perror_def
        fprintf_stderr_def emit_def start_def split: if_splits dest!: prelude_aligned_Early)
next
  case Mycat6
  with assms show ?thesis
    by (auto simp add: sys_open_def perror_def hint_sequential_def Let_def
        fprintf_stderr_def emit_def start_def split: if_splits dest!: prelude_aligned_Early)
qed

text \<open>When the loop is left by a write failure, the output lacks exactly what the
  last write did not take.\<close>

lemma loop_run_cut:
  assumes "loop_run fd n ex evs d" and "ex = WriteMismatch"
  shows "\<exists>before bs r. writes evs = before @ [(bs, r)] \<and> r \<noteq> int (length bs)
     \<and> chunks_read evs = concat (map fst before) @ bs
     \<and> d = concat (map fst before) @ take (nat r) bs"
  using assms
proof (induction rule: loop_run.induct)
  case (stop r fd n)
  then show ?case by simp
next
  case (mismatch c wr fd n)
  then have "writes [Read fd n (int (length c)) c, Write c wr] = [] @ [(c, wr)]
      \<and> wr \<noteq> int (length c)
      \<and> chunks_read [Read fd n (int (length c)) c, Write c wr] = concat (map fst []) @ c
      \<and> take (nat wr) c = concat (map fst []) @ take (nat wr) c"
    by simp
  then show ?case by blast
next
  case (iterate c fd n ex evs d)
  from iterate.IH [OF iterate.prems] obtain before bs r where
    "writes evs = before @ [(bs, r)]" and "r \<noteq> int (length bs)"
    and "chunks_read evs = concat (map fst before) @ bs"
    and "d = concat (map fst before) @ take (nat r) bs"
    by blast
  with iterate.hyps(1)
  have "writes (Read fd n (int (length c)) c # Write c (int (length c)) # evs)
        = ((c, int (length c)) # before) @ [(bs, r)]
      \<and> r \<noteq> int (length bs)
      \<and> chunks_read (Read fd n (int (length c)) c # Write c (int (length c)) # evs)
        = concat (map fst ((c, int (length c)) # before)) @ bs
      \<and> c @ d = concat (map fst ((c, int (length c)) # before)) @ take (nat r) bs"
    by simp
  then show ?case by blast
qed

text \<open>
  Claim C9, amended. On every run that ends, the bytes on standard output are exactly
  the concatenation of the chunks read, in order, unless a write failure was reported.
  In that case the last write returned a count \<open>r\<close> other than the length of the chunk it
  was given, and the output is the chunks read before the last one followed by the
  first \<open>r\<close> bytes of the last chunk (none of them when \<open>r\<close> is negative, all of them
  when \<open>r\<close> exceeds its length). In every case the output is a prefix of the chunks read,
  and so of the file whenever the reads are those of a file. No \<open>write\<close> follows a
  \<open>read\<close> that returned zero or a negative value.
\<close>

theorem output_prefix_of_chunks:
  assumes "run v e m = Some (code, w)"
  shows "prefix (out w) (chunks_read (trace w))
     \<and> (ErrWrite \<notin> set (diags (trace w)) \<longrightarrow> out w = chunks_read (trace w))
     \<and> (ErrWrite \<in> set (diags (trace w)) \<longrightarrow>
          (\<exists>before bs r. writes (trace w) = before @ [(bs, r)] \<and> r \<noteq> int (length bs)
             \<and> chunks_read (trace w) = concat (map fst before) @ bs
             \<and> out w = concat (map fst before) @ take (nat r) bs))
     \<and> (file_reads F (trace w) \<longrightarrow> prefix (out w) F)
     \<and> no_write_after_end (trace w)"
  using assms
proof (cases rule: run_Some_cases)
  case early
  note facts = prelude_Early [OF early]
  from facts(3) have "chunks_read (trace w) = []"
    by (rule no_reads_no_chunks)
  moreover from facts(3) have "no_write_after_end (trace w)"
    by (rule nwae_no_reads)
  ultimately show ?thesis
    using facts(2) prelude_Early_no_ErrWrite [OF early] by simp
next
  case (looped fd buf n rel w1 ex evs)
  let ?tail = "finish_events e fd ex @ map Free (map snd (mallocs (trace w1)))"
  note q = quietD [OF prelude_Ready(2) [OF looped(1)]]
  have ch: "chunks_read (trace w) = chunks_read evs"
    using looped(4) q(5) by (simp add: finish_events_obs map_Free_obs map_Free_snd_obs)
  have wr: "writes (trace w) = writes evs"
    using looped(4) q(2) by (simp add: finish_events_obs map_Free_obs map_Free_snd_obs)
  have b': "ErrWrite \<in> set (diags (trace w)) \<longrightarrow>
          (\<exists>before bs r. writes (trace w) = before @ [(bs, r)] \<and> r \<noteq> int (length bs)
             \<and> chunks_read (trace w) = concat (map fst before) @ bs
             \<and> out w = concat (map fst before) @ take (nat r) bs)"
  proof
    assume "ErrWrite \<in> set (diags (trace w))"
    then have "ErrWrite \<in> set (diags (finish_events e fd ex))"
      using looped(4) q(9) loop_run_obs(5) [OF looped(2)]
      by (simp add: map_Free_obs map_Free_snd_obs)
    then have "ex = WriteMismatch"
      by (simp add: finish_events_ErrWrite)
    from loop_run_cut [OF looped(2) this] ch wr
    show "\<exists>before bs r. writes (trace w) = before @ [(bs, r)] \<and> r \<noteq> int (length bs)
             \<and> chunks_read (trace w) = concat (map fst before) @ bs
             \<and> out w = concat (map fst before) @ take (nat r) bs"
      by simp
  qed
  note lc = loop_run_chunks [OF looped(2)]
  have a: "prefix (out w) (chunks_read (trace w))"
    using lc ch by simp
  have b: "ErrWrite \<notin> set (diags (trace w)) \<longrightarrow> out w = chunks_read (trace w)"
  proof
    assume "ErrWrite \<notin> set (diags (trace w))"
    then have "ErrWrite \<notin> set (diags (finish_events e fd ex))"
      using looped(4) by simp
    then have "ex \<noteq> WriteMismatch"
      by (simp add: finish_events_ErrWrite)
    with lc ch show "out w = chunks_read (trace w)"
      by simp
  qed
  have c: "file_reads F (trace w) \<longrightarrow> prefix (out w) F"
  proof
    assume "file_reads F (trace w)"
    with looped(4) q(1) have "file_reads F evs"
      using file_reads_front [of F evs] by (simp add: file_reads_skip)
    from loop_run_file [OF looped(2) this] have "prefix (chunks_read evs) F"
      by simp
    with lc show "prefix (out w) F"
      by (meson prefix_order.trans)
  qed
  have "reads ?tail = []" and "writes ?tail = []"
    by (simp_all add: finish_events_obs map_Free_obs map_Free_snd_obs)
  then have "no_write_after_end (evs @ ?tail)"
    by (rule loop_run_nwae [OF looped(2)])
  then have d: "no_write_after_end (trace w)"
    using looped(4) q(1) by (simp add: nwae_skip)
  from a b b' c d show ?thesis
    by blast
qed

section \<open>Release of the descriptor and the buffer\<close>

text \<open>
  Claim C4. In the programs with a heap buffer, every run that ends without reporting
  a usage, open or allocation failure (so: after the descriptor and the buffer have
  been acquired, whether it ends normally or in a read, write or close failure) has
  opened one descriptor and called \<open>close\<close> on it once, and has passed the one pointer
  that \<open>malloc\<close> returned to \<open>free\<close> once.
\<close>

theorem released_exactly_once:
  assumes "run v e m = Some (code, w)" and "v \<noteq> Mycat1"
    and "Usage \<notin> set (diags (trace w))" and "ErrOpen \<notin> set (diags (trace w))"
    and "ErrAlloc \<notin> set (diags (trace w))"
  shows "\<exists>fd req raw. opens (trace w) = [fd] \<and> fd \<noteq> - 1 \<and> closes (trace w) = [fd]
     \<and> mallocs (trace w) = [(req, raw)] \<and> raw \<noteq> NULL \<and> frees (trace w) = [raw]"
  using assms(1)
proof (cases rule: run_Some_cases)
  case early
  from prelude_Early(5) [OF early] assms(3-5) show ?thesis
    by blast
next
  case (looped fd buf n rel w1 ex evs)
  note q = quietD [OF prelude_Ready(2) [OF looped(1)]]
  note lo = loop_run_obs [OF looped(2)]
  from prelude_Ready(5) [OF looped(1)] assms(2) obtain req raw where
    ma: "mallocs (trace w1) = [(req, raw)]" and raw: "raw \<noteq> NULL"
    by blast
  have "opens (trace w) = [fd]"
    using looped(4) prelude_Ready(3) [OF looped(1)] lo(3)
    by (simp add: finish_events_obs map_Free_obs map_Free_snd_obs)
  moreover have "closes (trace w) = [fd]"
    using looped(4) q(3) lo(4) by (simp add: finish_events_obs map_Free_obs map_Free_snd_obs)
  moreover have "mallocs (trace w) = [(req, raw)]"
    using looped(4) ma lo(1) by (simp add: finish_events_obs map_Free_obs map_Free_snd_obs)
  moreover have "frees (trace w) = [raw]"
    using looped(4) ma q(4) lo(2) by (simp add: finish_events_obs map_Free_obs map_Free_snd_obs)
  ultimately show ?thesis
    using raw prelude_Ready(4) [OF looped(1)] by blast
qed

section \<open>A short write is fatal\<close>

text \<open>
  Claim C5. If some \<open>write\<close> of a run returned another count than the \<open>N > 0\<close> bytes
  it was given (the bytes the preceding \<open>read\<close> delivered), then that write is the last
  input/output of the run: what follows is the error report, the \<open>close\<close> of the input
  descriptor and the \<open>free\<close> of every allocated buffer, and the exit status is
  \<open>EXIT_FAILURE\<close>. mycat1 has no heap buffer and frees nothing.
\<close>

theorem write_mismatch_is_fatal:
  assumes "run v e m = Some (code, w)" and "(bs, r) \<in> set (writes (trace w))"
    and "r \<noteq> int (length bs)"
  shows "code = EXIT_FAILURE \<and> bs \<noteq> []
     \<and> (\<exists>pre fd n. trace w = pre @ [Read fd n (int (length bs)) bs, Write bs r,
                                      Diag ErrWrite, Close fd (close_ret e)]
                                 @ map Free (map snd (mallocs pre))
          \<and> opens pre = [fd]
          \<and> (v \<noteq> Mycat1 \<longrightarrow> (\<exists>req raw. mallocs pre = [(req, raw)] \<and> raw \<noteq> NULL)))"
  using assms(1)
proof (cases rule: run_Some_cases)
  case early
  from prelude_Early(4) [OF early] assms(2) show ?thesis
    by simp
next
  case (looped fd buf n rel w1 ex evs)
  note q = quietD [OF prelude_Ready(2) [OF looped(1)]]
  note lo = loop_run_obs [OF looped(2)]
  have "writes (trace w) = writes evs"
    using looped(4) q(2) by (simp add: finish_events_obs map_Free_obs map_Free_snd_obs)
  with assms(2) have "(bs, r) \<in> set (writes evs)"
    by simp
  from loop_run_mismatch [OF looped(2) this assms(3)] obtain evs' where
    ex: "ex = WriteMismatch" and bs: "bs \<noteq> []"
    and evs: "evs = evs' @ [Read fd (unat n) (int (length bs)) bs, Write bs r]"
    and me: "mallocs evs' = []"
    by blast
  define pre where "pre = trace w1 @ evs'"
  have mp: "mallocs pre = mallocs (trace w1)"
    by (simp add: pre_def me)
  have "opens evs' = []"
    using lo(3) evs by simp
  then have op: "opens pre = [fd]"
    using prelude_Ready(3) [OF looped(1)] by (simp add: pre_def)
  have tr: "trace w = pre @ [Read fd (unat n) (int (length bs)) bs, Write bs r,
                            Diag ErrWrite, Close fd (close_ret e)]
                       @ map Free (map snd (mallocs pre))"
    using looped(4) ex evs mp by (simp add: pre_def finish_events_def)
  have "v \<noteq> Mycat1 \<longrightarrow> (\<exists>req raw. mallocs pre = [(req, raw)] \<and> raw \<noteq> NULL)"
    using prelude_Ready(5) [OF looped(1)] mp by auto
  moreover have "code = EXIT_FAILURE"
    using looped(3) ex by (simp add: finish_code_def)
  ultimately show ?thesis
    using bs tr op by blast
qed

section \<open>Failure to open the input\<close>

lemma prelude_aligned_opens:
  "prelude_aligned e fd n w = Early code w1 \<Longrightarrow> opens (trace w1) = opens (trace w)"
  by (auto dest!: prelude_aligned_Early)

lemma prelude_Early_open:
  assumes "prelude v e (start m) = Early code w" and "opens (trace w) = [- 1]"
  shows "(v \<noteq> Mycat2 \<longrightarrow> trace w = [Open (- 1), Diag ErrOpen])
     \<and> (v = Mycat2 \<longrightarrow> (\<exists>pre n raw. trace w = pre @ [Malloc n raw, Open (- 1), Diag ErrOpen, Free raw]
            \<and> raw \<noteq> NULL \<and> mallocs pre = [] \<and> quiet pre \<and> opens pre = []))"
proof (cases v)
  case Mycat1
  with assms show ?thesis
    by (auto simp add: sys_open_def perror_def fprintf_stderr_def emit_def start_def
        split: if_splits)
next
  case Mycat2
  with assms show ?thesis
    by (auto simp add: io_blocksize2_eq malloc_def free_def sys_open_def perror_def
        fprintf_stderr_def emit_def start_def quiet_def split: if_splits)
next
  case Mycat4
  with assms show ?thesis
    by (auto simp add: io_blocksize4_eq Let_def sys_open_def perror_def
        fprintf_stderr_def emit_def start_def split: if_splits dest!: prelude_aligned_opens)
next
  case Mycat5
  with assms show ?thesis
    by (auto simp add: sys_open_def perror_def
        fprintf_stderr_def emit_def start_def split: if_splits dest!: prelude_aligned_opens)
next
  case Mycat6
  with assms show ?thesis
    by (auto simp add: sys_open_def perror_def hint_sequential_def Let_def
        fprintf_stderr_def emit_def start_def split: if_splits dest!: prelude_aligned_opens)
qed

text \<open>
  Claim C8 as stated fails for mycat2, which allocates its buffer before it opens the
  input: when the open fails the buffer exists, and the program frees it before it
  exits.
\<close>

theorem buffer_acquired_before_open:
  "run Mycat2 env_noent mem0 \<noteq> None
   \<and> fst (the (run Mycat2 env_noent mem0)) = EXIT_FAILURE
   \<and> trace (snd (the (run Mycat2 env_noent mem0)))
       = [Sysconf 4096, Diag (InfoBufSize 4096), Malloc 4096 65536, Open (- 1), Diag ErrOpen,
          Free 65536]
   \<and> mallocs (trace (snd (the (run Mycat2 env_noent mem0)))) \<noteq> []"
  by (simp add: main2_def io_blocksize2_eq malloc_def free_def sys_open_def perror_def
      fprintf_stderr_def emit_def start_def env_noent_def env_ok_def NULL_def EXIT_FAILURE_def)

text \<open>
  Claim C8, amended. When the open of the input fails, the program reports it and exits
  with \<open>EXIT_FAILURE\<close> at once, without input/output. In mycat1, mycat4, mycat5 and
  mycat6 nothing has been acquired before the open and nothing is released: the open
  and the report are the whole trace. In mycat2 the buffer has been allocated before
  the open, and it is freed after the report.
\<close>

theorem open_failure_exit:
  assumes "run v e m = Some (code, w)" and "opens (trace w) = [- 1]"
  shows "code = EXIT_FAILURE \<and> out w = []
     \<and> (v \<noteq> Mycat2 \<longrightarrow> trace w = [Open (- 1), Diag ErrOpen])
     \<and> (v = Mycat2 \<longrightarrow> (\<exists>pre n raw. trace w = pre @ [Malloc n raw, Open (- 1), Diag ErrOpen, Free raw]
            \<and> raw \<noteq> NULL \<and> mallocs pre = [] \<and> quiet pre \<and> opens pre = []))"
  using assms(1)
proof (cases rule: run_Some_cases)
  case early
  from prelude_Early(1,2) [OF early] prelude_Early_open [OF early assms(2)] show ?thesis
    by simp
next
  case (looped fd buf n rel w1 ex evs)
  have "opens (trace w) = [fd]"
    using looped(4) prelude_Ready(3) [OF looped(1)] loop_run_obs(3) [OF looped(2)]
    by (simp add: finish_events_obs map_Free_obs map_Free_snd_obs)
  with assms(2) prelude_Ready(4) [OF looped(1)] show ?thesis
    by simp
qed

section \<open>Termination of the loop\<close>

lemma copy_loop_terminates:
  assumes "stream_reads remaining s" and "remaining < length s"
  shows "\<exists>ex w'. copy_loop fd buf n s w = Some (ex, w')"
  using assms
proof (induction s arbitrary: remaining w)
  case Nil
  then show ?case by simp
next
  case (Cons a s)
  obtain r wr where a: "a = (r, wr)" by (cases a)
  show ?case
  proof (cases r)
    case RdErr
    with a show ?thesis by (simp only: copy_loop_RdErr) simp
  next
    case (RdData bs)
    define c where "c = take (min (unat n) SSIZE_MAX) bs"
    note step = copy_loop_RdData [of fd buf n bs wr s w, unfolded Let_def, folded c_def]
    show ?thesis
    proof (cases "c = [] \<or> wr \<noteq> int (length c)")
      case True
      with a RdData step show ?thesis by auto
    next
      case False
      then have "bs \<noteq> []"
        by (auto simp add: c_def)
      then have "0 < length bs" by simp
      moreover from Cons.prems a RdData have "length bs \<le> remaining"
        and sr: "stream_reads (remaining - length bs) s"
        by simp_all
      moreover have "remaining < Suc (length s)"
        using Cons.prems(2) by simp
      ultimately have "remaining - length bs < length s"
        by linarith
      from Cons.IH [OF sr this] False a RdData step show ?thesis
        by simp
    qed
  qed
qed

lemma copy_loop_reads_bound:
  assumes "copy_loop fd buf n s w = Some (ex, w')" and "stream_reads remaining s"
  shows "length (reads (trace w')) \<le> length (reads (trace w)) + remaining + 1"
  using assms
proof (induction s arbitrary: remaining w)
  case Nil
  then show ?case by simp
next
  case (Cons a s)
  obtain r wr where a: "a = (r, wr)" by (cases a)
  show ?case
  proof (cases r)
    case RdErr
    with Cons.prems a have "w' = w\<lparr>trace := trace w @ [Read fd (unat n) (- 1) []]\<rparr>"
      by (simp only: copy_loop_RdErr option.inject prod.inject)
    then show ?thesis by simp
  next
    case (RdData bs)
    define c where "c = take (min (unat n) SSIZE_MAX) bs"
    note step = copy_loop_RdData [of fd buf n bs wr s w, unfolded Let_def, folded c_def]
    have eq: "copy_loop fd buf n ((RdData bs, wr) # s) w = Some (ex, w')"
      using Cons.prems(1) a RdData by (simp del: copy_loop.simps)
    show ?thesis
    proof (cases "c = [] \<or> wr \<noteq> int (length c)")
      case True
      then consider "c = []" | "c \<noteq> []" "wr \<noteq> int (length c)"
        by blast
      then show ?thesis
      proof cases
        case 1
        with eq [unfolded step] have "w' = w\<lparr>trace := trace w @ [Read fd (unat n) 0 []]\<rparr>"
          by simp
        then show ?thesis by simp
      next
        case 2
        with eq [unfolded step]
        have "w' = w\<lparr>mem := store_bytes (mem w) buf c, out := out w @ take (nat wr) c,
                trace := trace w @ [Read fd (unat n) (int (length c)) c, Write c wr]\<rparr>"
          by simp
        then show ?thesis by simp
      qed
    next
      case False
      define w2 where "w2 = w\<lparr>mem := store_bytes (mem w) buf c, out := out w @ c,
                trace := trace w @ [Read fd (unat n) (int (length c)) c, Write c wr]\<rparr>"
      from False have "bs \<noteq> []"
        by (auto simp add: c_def)
      then have pos: "0 < length bs" by simp
      from Cons.prems a RdData have le: "length bs \<le> remaining"
        and sr: "stream_reads (remaining - length bs) s"
        by simp_all
      from False eq [unfolded step] have "copy_loop fd buf n s w2 = Some (ex, w')"
        by (simp add: w2_def)
      from Cons.IH [OF this sr]
      have "length (reads (trace w')) \<le> length (reads (trace w2)) + (remaining - length bs) + 1" .
      moreover have "length (reads (trace w2)) = length (reads (trace w)) + 1"
        by (simp add: w2_def)
      ultimately show ?thesis
        using pos le by linarith
    qed
  qed
qed

text \<open>
  Claim C10. If the answers of \<open>read\<close> are those of a finite stream of \<open>length F\<close>
  bytes (no answer holds more bytes than remain, so an exhausted stream answers with
  zero bytes and every answer with bytes consumes at least one), then every program
  ends, in success or failure, after at most \<open>length F + 1\<close> calls of \<open>read\<close>. The
  script has to hold an answer for each of these calls.
\<close>

theorem run_terminates:
  assumes "stream_reads (length F) (script e)" and "length F < length (script e)"
  shows "\<exists>code w. run v e m = Some (code, w) \<and> length (reads (trace w)) \<le> length F + 1"
proof -
  have ex: "\<exists>code w. run v e m = Some (code, w)"
  proof (cases "prelude v e (start m)")
    case (Early c w0)
    then show ?thesis
      by (simp add: run_prelude after_prelude_def)
  next
    case (Ready fd buf n rel w1)
    from copy_loop_terminates [OF assms] obtain ex w2 where
      "copy_loop fd buf n (script e) w1 = Some (ex, w2)"
      by blast
    with Ready show ?thesis
      by (simp add: run_prelude after_prelude_def finish_Some)
  qed
  then obtain code w where run: "run v e m = Some (code, w)"
    by blast
  from run have "length (reads (trace w)) \<le> length F + 1"
  proof (cases rule: run_Some_cases)
    case early
    from prelude_Early(3) [OF early] show ?thesis
      by simp
  next
    case (looped fd buf n rel w1 ex evs)
    note q = quietD [OF prelude_Ready(2) [OF looped(1)]]
    from looped(5) obtain w2 where
      loop: "copy_loop fd buf n (script e) w1 = Some (ex, w2)" and tr: "trace w2 = trace w1 @ evs"
      by blast
    from copy_loop_reads_bound [OF loop assms(1)] q(1)
    have "length (reads (trace w2)) \<le> length F + 1"
      by simp
    moreover have "reads (trace w) = reads (trace w2)"
      using looped(4) tr by (simp add: finish_events_obs map_Free_obs map_Free_snd_obs)
    ultimately show ?thesis
      by simp
  qed
  with run show ?thesis
    by blast
qed

section \<open>Sample runs\<close>

lemmas run_eval =
  main1_def main2_def main4_def main5_def main6_def copy_aligned_def copy_loop1_eq
  align_alloc_eq io_blocksize4_eq io_blocksize2_eq Let_def copy_loop_RdData copy_loop_RdErr
  finish_Some finish_events_def finish_code_def align_free_def free_def malloc_def sys_open_def
  hint_sequential_def perror_def fprintf_stderr_def emit_def start_def io_blocksize5_def
  OPTIMAL_BUFFER_SIZE_def NULL_def PTR_WIDTH_def SSIZE_MAX_def EXIT_FAILURE_def EXIT_SUCCESS_def
  env_ok_def env_wfail_def env_over_def env_noent_def env_fifo_def env_noadvice_def
  env_bytewise_def

lemma the_run: "r \<noteq> None \<Longrightarrow> fst (the r) = c \<Longrightarrow> r = Some (c, snd (the r))"
  by (cases r) auto

lemma run5_ok:
  "run Mycat5 env_ok mem0 \<noteq> None"
  "fst (the (run Mycat5 env_ok mem0)) = 0"
  "out (snd (the (run Mycat5 env_ok mem0))) = [104, 105]"
  "reads (trace (snd (the (run Mycat5 env_ok mem0)))) = [2, 0]"
  "file_reads [104, 105] (trace (snd (the (run Mycat5 env_ok mem0))))"
  "diags (trace (snd (the (run Mycat5 env_ok mem0)))) = [InfoBufSize 2097152]"
  by (simp_all add: run_eval del: copy_loop.simps)

lemma run4_ok:
  "run Mycat4 env_ok mem0 \<noteq> None"
  "fst (the (run Mycat4 env_ok mem0)) = 0"
  "file_reads [104, 105] (trace (snd (the (run Mycat4 env_ok mem0))))"
  by (simp_all add: run_eval word_sless_alt del: copy_loop.simps)

lemma run5_wfail:
  "run Mycat5 env_wfail mem0 \<noteq> None"
  "fst (the (run Mycat5 env_wfail mem0)) = 1"
  "out (snd (the (run Mycat5 env_wfail mem0))) = []"
  "writes (trace (snd (the (run Mycat5 env_wfail mem0)))) = [([104, 105], - 1)]"
  "diags (trace (snd (the (run Mycat5 env_wfail mem0)))) = [InfoBufSize 2097152, ErrWrite]"
  "mallocs (trace (snd (the (run Mycat5 env_wfail mem0)))) = [(2101255, 65536)]"
  "opens (trace (snd (the (run Mycat5 env_wfail mem0)))) = [3]"
  by (simp_all add: run_eval del: copy_loop.simps)

lemma run5_over:
  "run Mycat5 env_over mem0 \<noteq> None"
  "fst (the (run Mycat5 env_over mem0)) = 1"
  "out (snd (the (run Mycat5 env_over mem0))) = [104, 105]"
  "writes (trace (snd (the (run Mycat5 env_over mem0)))) = [([104, 105], 3)]"
  "diags (trace (snd (the (run Mycat5 env_over mem0)))) = [InfoBufSize 2097152, ErrWrite]"
  by (simp_all add: run_eval del: copy_loop.simps)

lemma run1_bytewise:
  "run Mycat1 env_bytewise mem0 \<noteq> None"
  "fst (the (run Mycat1 env_bytewise mem0)) = 0"
  "out (snd (the (run Mycat1 env_bytewise mem0))) = [97, 98, 99]"
  "file_reads [97, 98, 99] (trace (snd (the (run Mycat1 env_bytewise mem0))))"
  "trace (snd (the (run Mycat1 env_bytewise mem0)))
     = [Open 3, Read 3 1 1 [97], Write [97] 1, Read 3 1 1 [98], Write [98] 1,
        Read 3 1 1 [99], Write [99] 1, Read 3 1 0 [], Close 3 0]"
  by (simp_all add: run_eval del: copy_loop.simps)

lemma run4_noent:
  "run Mycat4 env_noent mem0 \<noteq> None"
  "fst (the (run Mycat4 env_noent mem0)) = 1"
  "trace (snd (the (run Mycat4 env_noent mem0))) = [Open (- 1), Diag ErrOpen]"
  by (simp_all add: run_eval del: copy_loop.simps)

text \<open>With neither the page size nor the block size available, mycat4 warns twice
  about the page size (once for the block size, once in the allocator) and once about
  \<open>fstat\<close>, works with 4096 bytes, and exits with status 0.\<close>

lemma run4_noadvice:
  "run Mycat4 env_noadvice mem0 \<noteq> None"
  "fst (the (run Mycat4 env_noadvice mem0)) = 0"
  "out (snd (the (run Mycat4 env_noadvice mem0))) = [104, 105]"
  "diags (trace (snd (the (run Mycat4 env_noadvice mem0))))
     = [WarnPageSize, WarnFstat, InfoBufSize 4096, WarnPageSize]"
  by (simp_all add: run_eval del: copy_loop.simps)

theorem copy_identical_witness:
  "run Mycat1 env_bytewise mem0 = Some (EXIT_SUCCESS, snd (the (run Mycat1 env_bytewise mem0)))
   \<and> file_reads [97, 98, 99] (trace (snd (the (run Mycat1 env_bytewise mem0))))
   \<and> out (snd (the (run Mycat1 env_bytewise mem0))) = [97, 98, 99]
   \<and> run Mycat4 env_ok mem0 = Some (EXIT_SUCCESS, snd (the (run Mycat4 env_ok mem0)))
   \<and> file_reads [104, 105] (trace (snd (the (run Mycat4 env_ok mem0))))
   \<and> sysconf_ok env_ok
   \<and> out (snd (the (run Mycat4 env_ok mem0))) = [104, 105]"
proof -
  have a1: "run Mycat1 env_bytewise mem0 = Some (EXIT_SUCCESS, snd (the (run Mycat1 env_bytewise mem0)))"
    using run1_bytewise(1,2) by (simp add: the_run EXIT_SUCCESS_def)
  have b1: "run Mycat4 env_ok mem0 = Some (EXIT_SUCCESS, snd (the (run Mycat4 env_ok mem0)))"
    using run4_ok(1,2) by (simp add: the_run EXIT_SUCCESS_def)
  have b2: "sysconf_ok env_ok"
    by (simp add: sysconf_ok_def env_ok_def word_sless_alt)
  from copy_identical [OF a1 run1_bytewise(4)] copy_identical [OF b1 run4_ok(3)] b2
    a1 b1 run1_bytewise(4) run4_ok(3)
  show ?thesis
    by simp
qed

theorem output_prefix_of_chunks_witness:
  "run Mycat5 env_wfail mem0 = Some (EXIT_FAILURE, snd (the (run Mycat5 env_wfail mem0)))
   \<and> ErrWrite \<in> set (diags (trace (snd (the (run Mycat5 env_wfail mem0)))))
   \<and> writes (trace (snd (the (run Mycat5 env_wfail mem0)))) = [] @ [([104, 105], - 1)]
   \<and> out (snd (the (run Mycat5 env_wfail mem0))) = concat (map fst []) @ take (nat (- 1)) [104, 105]
   \<and> prefix (out (snd (the (run Mycat5 env_wfail mem0))))
        (chunks_read (trace (snd (the (run Mycat5 env_wfail mem0)))))
   \<and> no_write_after_end (trace (snd (the (run Mycat5 env_wfail mem0))))
   \<and> run Mycat5 env_over mem0 = Some (EXIT_FAILURE, snd (the (run Mycat5 env_over mem0)))
   \<and> ErrWrite \<in> set (diags (trace (snd (the (run Mycat5 env_over mem0)))))
   \<and> out (snd (the (run Mycat5 env_over mem0))) = take (nat 3) [104, 105]
   \<and> run Mycat5 env_ok mem0 = Some (EXIT_SUCCESS, snd (the (run Mycat5 env_ok mem0)))
   \<and> ErrWrite \<notin> set (diags (trace (snd (the (run Mycat5 env_ok mem0)))))
   \<and> file_reads [104, 105] (trace (snd (the (run Mycat5 env_ok mem0))))
   \<and> chunks_read (trace (snd (the (run Mycat5 env_ok mem0)))) = [104, 105]
   \<and> prefix (out (snd (the (run Mycat5 env_ok mem0)))) [104, 105]"
proof -
  have a: "run Mycat5 env_wfail mem0 = Some (EXIT_FAILURE, snd (the (run Mycat5 env_wfail mem0)))"
    using run5_wfail(1,2) by (simp add: the_run EXIT_FAILURE_def)
  have a': "ErrWrite \<in> set (diags (trace (snd (the (run Mycat5 env_wfail mem0)))))"
    using run5_wfail(5) by simp
  have o: "run Mycat5 env_over mem0 = Some (EXIT_FAILURE, snd (the (run Mycat5 env_over mem0)))"
    using run5_over(1,2) by (simp add: the_run EXIT_FAILURE_def)
  have o': "ErrWrite \<in> set (diags (trace (snd (the (run Mycat5 env_over mem0)))))"
    using run5_over(5) by simp
  have b: "run Mycat5 env_ok mem0 = Some (EXIT_SUCCESS, snd (the (run Mycat5 env_ok mem0)))"
    using run5_ok(1,2) by (simp add: the_run EXIT_SUCCESS_def)
  have d: "ErrWrite \<notin> set (diags (trace (snd (the (run Mycat5 env_ok mem0)))))"
    using run5_ok(6) by simp
  from output_prefix_of_chunks [OF a, of "[]"] a' run5_wfail(4)
  have wf: "out (snd (the (run Mycat5 env_wfail mem0))) = []"
    by auto
  from output_prefix_of_chunks [OF o, of "[]"] o' run5_over(4)
  have ov: "out (snd (the (run Mycat5 env_over mem0))) = [104, 105]"
    by auto
  from output_prefix_of_chunks [OF a, of "[]"] output_prefix_of_chunks [OF b, of "[104, 105]"]
    a a' o o' b d wf ov run5_wfail(4) run5_ok(3,5)
  show ?thesis
    by simp
qed

theorem released_exactly_once_witness:
  "run Mycat5 env_wfail mem0 = Some (EXIT_FAILURE, snd (the (run Mycat5 env_wfail mem0)))
   \<and> Mycat5 \<noteq> Mycat1
   \<and> Usage \<notin> set (diags (trace (snd (the (run Mycat5 env_wfail mem0)))))
   \<and> ErrOpen \<notin> set (diags (trace (snd (the (run Mycat5 env_wfail mem0)))))
   \<and> ErrAlloc \<notin> set (diags (trace (snd (the (run Mycat5 env_wfail mem0)))))
   \<and> closes (trace (snd (the (run Mycat5 env_wfail mem0)))) = [3]
   \<and> frees (trace (snd (the (run Mycat5 env_wfail mem0)))) = [65536]"
proof -
  have a: "run Mycat5 env_wfail mem0 = Some (EXIT_FAILURE, snd (the (run Mycat5 env_wfail mem0)))"
    using run5_wfail(1,2) by (simp add: the_run EXIT_FAILURE_def)
  have v: "Mycat5 \<noteq> Mycat1"
    by simp
  have d: "Usage \<notin> set (diags (trace (snd (the (run Mycat5 env_wfail mem0)))))"
    "ErrOpen \<notin> set (diags (trace (snd (the (run Mycat5 env_wfail mem0)))))"
    "ErrAlloc \<notin> set (diags (trace (snd (the (run Mycat5 env_wfail mem0)))))"
    using run5_wfail(5) by simp_all
  from released_exactly_once [OF a v d] a d run5_wfail(6,7)
  show ?thesis
    by auto
qed

theorem write_mismatch_is_fatal_witness:
  "run Mycat5 env_wfail mem0 = Some (EXIT_FAILURE, snd (the (run Mycat5 env_wfail mem0)))
   \<and> ([104, 105], - 1) \<in> set (writes (trace (snd (the (run Mycat5 env_wfail mem0)))))
   \<and> - 1 \<noteq> int (length [104 :: byte, 105])
   \<and> (\<exists>pre fd n. trace (snd (the (run Mycat5 env_wfail mem0)))
         = pre @ [Read fd n 2 [104, 105], Write [104, 105] (- 1), Diag ErrWrite, Close fd 0]
             @ map Free (map snd (mallocs pre)))"
proof -
  have a: "run Mycat5 env_wfail mem0 = Some (EXIT_FAILURE, snd (the (run Mycat5 env_wfail mem0)))"
    using run5_wfail(1,2) by (simp add: the_run EXIT_FAILURE_def)
  have b: "([104, 105], - 1) \<in> set (writes (trace (snd (the (run Mycat5 env_wfail mem0)))))"
    using run5_wfail(4) by simp
  have c: "- 1 \<noteq> int (length [104 :: byte, 105])"
    by simp
  have "close_ret env_wfail = 0"
    by (simp add: env_wfail_def env_ok_def)
  with write_mismatch_is_fatal [OF a b c] a b
  show ?thesis
    by auto
qed

theorem open_failure_exit_witness:
  "run Mycat4 env_noent mem0 = Some (EXIT_FAILURE, snd (the (run Mycat4 env_noent mem0)))
   \<and> opens (trace (snd (the (run Mycat4 env_noent mem0)))) = [- 1]
   \<and> Mycat4 \<noteq> Mycat2
   \<and> trace (snd (the (run Mycat4 env_noent mem0))) = [Open (- 1), Diag ErrOpen]
   \<and> run Mycat2 env_noent mem0 = Some (EXIT_FAILURE, snd (the (run Mycat2 env_noent mem0)))
   \<and> opens (trace (snd (the (run Mycat2 env_noent mem0)))) = [- 1]
   \<and> frees (trace (snd (the (run Mycat2 env_noent mem0))))
        = map snd (mallocs (trace (snd (the (run Mycat2 env_noent mem0)))))"
proof -
  have a: "run Mycat4 env_noent mem0 = Some (EXIT_FAILURE, snd (the (run Mycat4 env_noent mem0)))"
    using run4_noent(1,2) by (simp add: the_run EXIT_FAILURE_def)
  have b: "opens (trace (snd (the (run Mycat4 env_noent mem0)))) = [- 1]"
    using run4_noent(3) by simp
  have c: "run Mycat2 env_noent mem0 = Some (EXIT_FAILURE, snd (the (run Mycat2 env_noent mem0)))"
    by (rule the_run) (simp_all add: run_eval)
  have d: "opens (trace (snd (the (run Mycat2 env_noent mem0)))) = [- 1]"
    by (simp add: run_eval)
  from open_failure_exit [OF c d] have
    "frees (trace (snd (the (run Mycat2 env_noent mem0))))
        = map snd (mallocs (trace (snd (the (run Mycat2 env_noent mem0)))))"
    by (auto simp add: quiet_def)
  with open_failure_exit [OF a b] a b c d show ?thesis
    by simp
qed

theorem run_terminates_witness:
  "stream_reads (length [97 :: byte, 98, 99]) (script env_bytewise)
   \<and> length [97 :: byte, 98, 99] < length (script env_bytewise)
   \<and> run Mycat1 env_bytewise mem0 \<noteq> None
   \<and> run Mycat2 env_bytewise mem0 \<noteq> None
   \<and> run Mycat6 env_bytewise mem0 \<noteq> None"
proof -
  have a: "stream_reads (length [97 :: byte, 98, 99]) (script env_bytewise)"
    by (simp add: env_bytewise_def env_ok_def)
  have b: "length [97 :: byte, 98, 99] < length (script env_bytewise)"
    by (simp add: env_bytewise_def env_ok_def)
  from run_terminates [OF a b, of Mycat1 mem0] run_terminates [OF a b, of Mycat2 mem0]
    run_terminates [OF a b, of Mycat6 mem0] a b
  show ?thesis
    by auto
qed

section \<open>Advisory calls\<close>

text \<open>
  Claim C7, at an input for which the claim fails. \<open>posix_fadvise\<close> reports a failure
  by returning the error number, never \<open>-1\<close>; mycat6 tests the result against \<open>-1\<close>.
  On a FIFO the call fails with \<open>ESPIPE\<close> (29): the run goes on and exits with status
  0, as the claim says, but no warning is written; the program reports that the hint
  has been given.
\<close>

theorem fadvise_failure_unreported:
  "fadvise_ret env_fifo = 29
   \<and> run Mycat6 env_fifo mem0 \<noteq> None
   \<and> fst (the (run Mycat6 env_fifo mem0)) = EXIT_SUCCESS
   \<and> out (snd (the (run Mycat6 env_fifo mem0))) = [104, 105]
   \<and> diags (trace (snd (the (run Mycat6 env_fifo mem0)))) = [InfoFadvise, InfoBufSize 2097152]
   \<and> WarnFadvise \<notin> set (diags (trace (snd (the (run Mycat6 env_fifo mem0)))))"
  by (simp add: run_eval del: copy_loop.simps)

text \<open>The other advisory calls do fall back with a warning.\<close>

lemma page_size_fallback:
  assumes "sysconf_ret e = - 1"
  shows "get_system_page_size e w = (4096, w\<lparr>trace := trace w @ [Sysconf (- 1), Diag WarnPageSize]\<rparr>)"
    and "io_blocksize2 e w = (4096, w\<lparr>trace := trace w @ [Sysconf (- 1), Diag WarnPageSize]\<rparr>)"
  using assms
  by (simp_all add: get_system_page_size_def io_blocksize2_def perror_def emit_def Let_def)

lemma fstat_fallback:
  assumes "fstat_ret e = None"
  shows "fst (io_blocksize4 e fd w) = fst (get_system_page_size e w)"
    and "WarnFstat \<in> set (diags (trace (snd (io_blocksize4 e fd w))))"
  using assms
  by (simp_all add: io_blocksize4_eq get_system_page_size_def Let_def)

lemma hint_sequential_eq:
  "hint_sequential e fd w =
     w\<lparr>trace := trace w @ [Fadvise fd (fadvise_ret e),
                            Diag (if fadvise_ret e = - 1 then WarnFadvise else InfoFadvise)]\<rparr>"
  by (simp add: hint_sequential_def perror_def fprintf_stderr_def emit_def Let_def)

text \<open>
  Whatever \<open>posix_fadvise\<close> returns, exit status and standard output of mycat6 are the
  same: the result of the call only selects the line written to the error stream.
\<close>

lemma copy_loop_trace_irrelevant:
  assumes "mem w = mem w'" and "out w = out w'"
  shows "map_option (\<lambda>(ex, a). (ex, mem a, out a)) (copy_loop fd buf n s w)
       = map_option (\<lambda>(ex, a). (ex, mem a, out a)) (copy_loop fd buf n s w')"
  using assms
proof (induction s arbitrary: w w')
  case Nil
  show ?case by simp
next
  case (Cons a s)
  obtain r wr where a: "a = (r, wr)" by (cases a)
  show ?case
  proof (cases r)
    case RdErr
    with a Cons.prems show ?thesis
      by (simp add: copy_loop_RdErr del: copy_loop.simps)
  next
    case (RdData bs)
    define c where "c = take (min (unat n) SSIZE_MAX) bs"
    let ?t = "\<lambda>w. trace w @ [Read fd (unat n) (int (length c)) c, Write c wr]"
    have "map_option (\<lambda>(ex, a). (ex, mem a, out a))
            (copy_loop fd buf n s (w\<lparr>mem := store_bytes (mem w) buf c, out := out w @ c, trace := ?t w\<rparr>))
        = map_option (\<lambda>(ex, a). (ex, mem a, out a))
            (copy_loop fd buf n s (w'\<lparr>mem := store_bytes (mem w') buf c, out := out w' @ c, trace := ?t w'\<rparr>))"
      by (rule Cons.IH) (simp_all add: Cons.prems)
    with a RdData Cons.prems show ?thesis
      by (auto simp add: copy_loop_RdData Let_def c_def [symmetric] simp del: copy_loop.simps)
  qed
qed

lemma finish_projection:
  "map_option (\<lambda>(c, w). (c, out w)) (finish e fd (align_free buf) r)
     = map_option (\<lambda>(ex, m, ou). (finish_code e ex, ou)) (map_option (\<lambda>(ex, a). (ex, mem a, out a)) r)"
proof (cases r)
  case None
  then show ?thesis by simp
next
  case (Some p)
  obtain ex w where "p = (ex, w)" by (cases p)
  with Some show ?thesis
    by (simp add: finish_Some align_free_def free_def emit_def Let_def)
qed

lemma hint_result_irrelevant:
  "map_option (\<lambda>(c, w). (c, out w)) (run Mycat6 (e\<lparr>fadvise_ret := r\<rparr>) m)
     = map_option (\<lambda>(c, w). (c, out w)) (run Mycat6 e m)"
proof -
  have fc: "finish_code (e\<lparr>fadvise_ret := r\<rparr>) = finish_code e"
    by (rule ext) (simp add: finish_code_def)
  have fin: "\<And>fd buf x. map_option (\<lambda>(c, w). (c, out w)) (finish (e\<lparr>fadvise_ret := r\<rparr>) fd (align_free buf) x)
      = map_option (\<lambda>(c, w). (c, out w)) (finish e fd (align_free buf) x)"
    by (simp only: finish_projection fc)
  show ?thesis
    by (auto simp add: main6_def copy_aligned_def align_alloc_eq Let_def hint_sequential_eq
        sys_open_def sys_close_def perror_def fprintf_stderr_def emit_def start_def
        finish_projection fc
        intro!: arg_cong [where f = "map_option (\<lambda>(ex, m, ou). (finish_code e ex, ou))"]
                copy_loop_trace_irrelevant)
qed

end
